theory Spec2Isabelle
  imports Main "HOL-Library.Word" "HOL-Library.Signed_Division"
begin

unbundle bit_operations_syntax

section \<open>The sequence-tracking loopback test (user/litepcie\_latency\_test\_final.c)\<close>

text \<open>
  \<^verbatim>\<open>pcie_latency_test\<close> keeps its whole state in local variables. One pass of the main
  \<^verbatim>\<open>while\<close> loop is modelled as two state transformers, the send path and the receive
  path, over a record of those variables. What the transport and the clock deliver in
  that pass are arguments: whether \<^verbatim>\<open>litepcie_dma_next_write_buffer\<close> returned a buffer,
  the words of the buffer returned by \<^verbatim>\<open>litepcie_dma_next_read_buffer\<close> (\<open>None\<close> for
  \<^verbatim>\<open>NULL\<close>), and the two readings of \<^verbatim>\<open>get_time_us\<close>. Console output is not modelled.
\<close>

record latency_measurement =
  timestamp :: "64 word"
  sequence :: "32 word"
  marker :: "32 word"

definition MAX_PENDING :: nat where
  "MAX_PENDING = 256"

definition MARKER_VALUE :: "32 word" where
  "MARKER_VALUE = 0xCAFEBABE"

text \<open>
  The locals of \<^verbatim>\<open>pcie_latency_test\<close>. The local \<^verbatim>\<open>sequence\<close> is \<open>tx_sequence\<close> here (the
  struct field keeps the name). \<^verbatim>\<open>pending_head\<close> and \<^verbatim>\<open>pending_tail\<close> are C \<^verbatim>\<open>int\<close>s that
  only ever hold array indices; \<open>processed\<close> is the \<^verbatim>\<open>calloc\<close>ed byte array of
  \<^verbatim>\<open>iterations\<close> entries. The two software counters of the DMA control block are
  declared in liblitepcie.h, which is not among the sources; they are only incremented.
\<close>

record test_state =
  pending :: "latency_measurement list"
  pending_head :: nat
  pending_tail :: nat
  processed :: "8 word list"
  min_latency :: "64 word"
  max_latency :: "64 word"
  total_latency :: "64 word"
  successful :: "32 word"
  tx_sequence :: "32 word"
  duplicates :: "32 word"
  sent :: "32 word"
  received :: "32 word"
  reader_sw_count :: int
  writer_sw_count :: int

text \<open>The state on entry to the main loop (lines 55--107).\<close>

definition initial_state :: "32 word \<Rightarrow> test_state" where
  "initial_state iterations =
     \<lparr>pending = replicate MAX_PENDING \<lparr>timestamp = 0, sequence = 0, marker = 0\<rparr>,
      pending_head = 0, pending_tail = 0,
      processed = replicate (unat iterations) 0,
      min_latency = - 1, max_latency = 0, total_latency = 0,
      successful = 0, tx_sequence = 0, duplicates = 0,
      sent = 0, received = 0,
      reader_sw_count = 0, writer_sw_count = 0\<rparr>"

subsection \<open>Send path (lines 118--155)\<close>

text \<open>
  The packet written into the write buffer: the buffer is cleared, word 0 is the marker,
  word 1 the sequence number, and words \<open>2 \<dots> packet_size / 4 - 1\<close> are
  \<open>sequence + i\<close> in 32-bit arithmetic.
\<close>

function fill_packet :: "nat \<Rightarrow> nat \<Rightarrow> 32 word \<Rightarrow> 32 word list \<Rightarrow> 32 word list" where
  "fill_packet i n seq data =
     (if i < n then fill_packet (i + 1) n seq (data[i := seq + of_nat i]) else data)"
  by pat_completeness auto
termination
  by (relation "measure (\<lambda>(i, n, seq, data). n - i)") auto

declare fill_packet.simps [simp del]

definition make_packet :: "32 word \<Rightarrow> 32 word \<Rightarrow> 32 word list \<Rightarrow> 32 word list" where
  "make_packet packet_size seq buf_wr =
     fill_packet 2 (unat packet_size div 4) seq
       ((replicate (length buf_wr) 0)[0 := MARKER_VALUE, 1 := seq])"

text \<open>
  Lines 137--144: the entry is stored only when advancing the tail would not reach the
  head; there is no \<^verbatim>\<open>else\<close> branch.
\<close>

definition store_pending :: "test_state \<Rightarrow> 64 word \<Rightarrow> test_state" where
  "store_pending st ts =
     (let next_tail = (pending_tail st + 1) mod MAX_PENDING in
      if next_tail \<noteq> pending_head st then
        st\<lparr>pending := (pending st)[pending_tail st :=
               \<lparr>timestamp = ts, sequence = tx_sequence st, marker = MARKER_VALUE\<rparr>],
           pending_tail := next_tail\<rparr>
      else st)"

definition send_path :: "32 word \<Rightarrow> test_state \<Rightarrow> bool \<Rightarrow> 64 word \<Rightarrow> test_state" where
  "send_path iterations st buf_wr ts =
     (if sent st < iterations then
        (if buf_wr then
           (let st1 = store_pending st ts in
            st1\<lparr>reader_sw_count := reader_sw_count st1 + 1,
                tx_sequence := tx_sequence st1 + 1,
                sent := sent st1 + 1\<rparr>)
         else st)
      else st)"

subsection \<open>Receive path (lines 158--216)\<close>

text \<open>
  The integrity loop of lines 183--190: \<open>valid\<close> stays 1 unless some word
  \<open>2 \<le> i < packet_size / 4\<close> differs from \<open>rx_sequence + i\<close>; the loop stops at the
  first such word.
\<close>

function verify_payload :: "nat \<Rightarrow> nat \<Rightarrow> 32 word \<Rightarrow> 32 word list \<Rightarrow> bool" where
  "verify_payload i n rx_sequence data =
     (if i < n then
        (if data ! i \<noteq> rx_sequence + of_nat i then False
         else verify_payload (i + 1) n rx_sequence data)
      else True)"
  by pat_completeness auto
termination
  by (relation "measure (\<lambda>(i, n, rx_sequence, data). n - i)") auto

declare verify_payload.simps [simp del]

definition record_latency :: "test_state \<Rightarrow> 64 word \<Rightarrow> test_state" where
  "record_latency st latency =
     (let st1 = (if latency < min_latency st then st\<lparr>min_latency := latency\<rparr> else st);
          st2 = (if latency > max_latency st1 then st1\<lparr>max_latency := latency\<rparr> else st1)
      in st2\<lparr>total_latency := total_latency st2 + latency,
             successful := successful st2 + 1\<rparr>)"

text \<open>
  The search of lines 175--204, from \<open>idx\<close> up to \<open>pending_tail\<close> around the ring. The
  loop has no bound of its own: it ends when \<open>idx\<close> meets the tail or an entry with the
  received sequence number. \<open>None\<close> is the loop that never ends; the first component of
  the result is \<^verbatim>\<open>found\<close>. No statement in the loop moves \<^verbatim>\<open>pending_head\<close> or clears the
  entry that was found.
\<close>

partial_function (option) scan_pending ::
  "32 word \<Rightarrow> 32 word list \<Rightarrow> 32 word \<Rightarrow> 64 word \<Rightarrow> test_state \<Rightarrow> nat \<Rightarrow> (bool \<times> test_state) option"
where
  "scan_pending packet_size data rx_sequence rx_time st idx =
     (if idx \<noteq> pending_tail st then
        (if sequence (pending st ! idx) = rx_sequence then
           (let latency = rx_time - timestamp (pending st ! idx);
                valid = verify_payload 2 (unat packet_size div 4) rx_sequence data
            in Some (True, if valid then record_latency st latency else st))
         else scan_pending packet_size data rx_sequence rx_time st ((idx + 1) mod MAX_PENDING))
      else Some (False, st))"

definition receive_path ::
  "32 word \<Rightarrow> 32 word \<Rightarrow> test_state \<Rightarrow> 32 word list option \<Rightarrow> 64 word \<Rightarrow> test_state option"
where
  "receive_path iterations packet_size st buf_rd rx_time =
     (case buf_rd of
        None \<Rightarrow> Some st
      | Some data \<Rightarrow>
          map_option (\<lambda>st'. st'\<lparr>writer_sw_count := writer_sw_count st' + 1\<rparr>)
            (if data ! 0 = MARKER_VALUE then
               (let rx_sequence = data ! 1 in
                map_option (\<lambda>st'. st'\<lparr>received := received st' + 1\<rparr>)
                  (if rx_sequence < iterations \<and> processed st ! unat rx_sequence \<noteq> 0 then
                     Some (st\<lparr>duplicates := duplicates st + 1\<rparr>)
                   else if rx_sequence < iterations then
                     map_option snd
                       (scan_pending packet_size data rx_sequence rx_time
                          (st\<lparr>processed := (processed st)[unat rx_sequence := 1]\<rparr>)
                          (pending_head st))
                   else Some st))
             else Some st))"

text \<open>One pass of the loop body: the send path, then the receive path.\<close>

definition loop_body ::
  "32 word \<Rightarrow> 32 word \<Rightarrow> test_state \<Rightarrow> bool \<Rightarrow> 64 word \<Rightarrow> 32 word list option \<Rightarrow> 64 word
     \<Rightarrow> test_state option"
where
  "loop_body iterations packet_size st buf_wr ts buf_rd rx_time =
     receive_path iterations packet_size (send_path iterations st buf_wr ts) buf_rd rx_time"

text \<open>
  A burst of \<open>n\<close> passes of the main loop in each of which a write buffer is available
  and no read buffer has arrived; \<open>clock k\<close> is the time read in pass \<open>k\<close>.
\<close>

fun send_burst ::
  "32 word \<Rightarrow> 32 word \<Rightarrow> (nat \<Rightarrow> 64 word) \<Rightarrow> nat \<Rightarrow> test_state \<Rightarrow> test_state option"
where
  "send_burst iterations packet_size clock 0 st = Some st"
| "send_burst iterations packet_size clock (Suc n) st =
     (case send_burst iterations packet_size clock n st of
        None \<Rightarrow> None
      | Some st' \<Rightarrow> loop_body iterations packet_size st' True (clock n) None 0)"

text \<open>
  The entries the queue holds, oldest first: the slots from \<open>pending_head\<close> up to, not
  including, \<open>pending_tail\<close>, around the ring.
\<close>

definition outstanding :: "test_state \<Rightarrow> latency_measurement list" where
  "outstanding st =
     map (\<lambda>k. pending st ! ((pending_head st + k) mod MAX_PENDING))
       [0..<(pending_tail st + MAX_PENDING - pending_head st) mod MAX_PENDING]"

section \<open>Pattern generation and verification (litepcie\_dma\_test\_optimized\_v2.c)\<close>

text \<open>
  \<^verbatim>\<open>config.pattern_type\<close> is an \<^verbatim>\<open>int\<close>; \<^verbatim>\<open>main\<close> rejects values outside \<open>0 \<dots> 4\<close>. A buffer
  is the list of its 32-bit words, \<^verbatim>\<open>count\<close> the number of words the caller asks for and
  \<^verbatim>\<open>*seed\<close> is passed in and returned. Generation and verification touch positions below
  \<^verbatim>\<open>count\<close> only, so the properties below are stated for \<open>count \<le> length buffer\<close>.
\<close>

definition PATTERN_SEQ :: int where "PATTERN_SEQ = 0"
definition PATTERN_RANDOM :: int where "PATTERN_RANDOM = 1"
definition PATTERN_ONES :: int where "PATTERN_ONES = 2"
definition PATTERN_ZEROS :: int where "PATTERN_ZEROS = 3"
definition PATTERN_ALT :: int where "PATTERN_ALT = 4"

text \<open>The value \<^verbatim>\<open>i & 0xFFFFFFFF\<close> of the \<^verbatim>\<open>size_t\<close> index, stored into a 32-bit word.\<close>

definition seq_word :: "nat \<Rightarrow> 32 word" where
  "seq_word i = ucast ((of_nat i :: 64 word) AND 0xFFFFFFFF)"

text \<open>\<^verbatim>\<open>(i & 1) ? 0xFFFFFFFF : 0x00000000\<close>\<close>

definition alt_word :: "nat \<Rightarrow> 32 word" where
  "alt_word i = (if (of_nat i :: 64 word) AND 1 \<noteq> 0 then 0xFFFFFFFF else 0x00000000)"

text \<open>One step of the generator \<^verbatim>\<open>*seed = *seed * 69069 + 1\<close>, in 32-bit arithmetic.\<close>

definition lcg_next :: "32 word \<Rightarrow> 32 word" where
  "lcg_next seed = seed * 69069 + 1"

function gen_seq :: "nat \<Rightarrow> nat \<Rightarrow> 32 word list \<Rightarrow> 32 word list" where
  "gen_seq i count buffer =
     (if i < count then gen_seq (i + 1) count (buffer[i := seq_word i]) else buffer)"
  by pat_completeness auto
termination
  by (relation "measure (\<lambda>(i, count, buffer). count - i)") auto

declare gen_seq.simps [simp del]

function gen_random :: "nat \<Rightarrow> nat \<Rightarrow> 32 word \<Rightarrow> 32 word list \<Rightarrow> 32 word list \<times> 32 word" where
  "gen_random i count seed buffer =
     (if i < count then
        (let seed' = lcg_next seed in gen_random (i + 1) count seed' (buffer[i := seed']))
      else (buffer, seed))"
  by pat_completeness auto
termination
  by (relation "measure (\<lambda>(i, count, seed, buffer). count - i)") auto

declare gen_random.simps [simp del]

function gen_alt :: "nat \<Rightarrow> nat \<Rightarrow> 32 word list \<Rightarrow> 32 word list" where
  "gen_alt i count buffer =
     (if i < count then gen_alt (i + 1) count (buffer[i := alt_word i]) else buffer)"
  by pat_completeness auto
termination
  by (relation "measure (\<lambda>(i, count, buffer). count - i)") auto

declare gen_alt.simps [simp del]

text \<open>
  \<^verbatim>\<open>memset(buffer, b, count * sizeof(uint32_t))\<close> with a byte \<open>b\<close> whose four copies make
  the word \<open>w\<close>: the first \<^verbatim>\<open>count\<close> words become \<open>w\<close>.
\<close>

definition memset_words :: "32 word \<Rightarrow> nat \<Rightarrow> 32 word list \<Rightarrow> 32 word list" where
  "memset_words w count buffer = map (\<lambda>_. w) (take count buffer) @ drop count buffer"

definition generate_pattern ::
  "int \<Rightarrow> 32 word list \<Rightarrow> nat \<Rightarrow> 32 word \<Rightarrow> 32 word list \<times> 32 word"
where
  "generate_pattern pattern_type buffer count seed =
     (if pattern_type = PATTERN_SEQ then (gen_seq 0 count buffer, seed)
      else if pattern_type = PATTERN_RANDOM then gen_random 0 count seed buffer
      else if pattern_type = PATTERN_ONES then (memset_words 0xFFFFFFFF count buffer, seed)
      else if pattern_type = PATTERN_ZEROS then (memset_words 0 count buffer, seed)
      else if pattern_type = PATTERN_ALT then (gen_alt 0 count buffer, seed)
      else (buffer, seed))"

text \<open>
  Verification. The four branches without a seed have the same body and differ
  in the expected word only, which is the argument \<open>expected\<close>: every mismatch
  increments \<^verbatim>\<open>errors\<close>, and \<^verbatim>\<open>if (errors > 10) break;\<close> leaves the loop. The verbose
  \<^verbatim>\<open>printf\<close> is not modelled.
\<close>

function verify_loop :: "(nat \<Rightarrow> 32 word) \<Rightarrow> nat \<Rightarrow> nat \<Rightarrow> 32 word list \<Rightarrow> int \<Rightarrow> int" where
  "verify_loop expected i count buffer errors =
     (if i < count then
        (if buffer ! i \<noteq> expected i then
           (if errors + 1 > 10 then errors + 1
            else verify_loop expected (i + 1) count buffer (errors + 1))
         else verify_loop expected (i + 1) count buffer errors)
      else errors)"
  by pat_completeness auto
termination
  by (relation "measure (\<lambda>(expected, i, count, buffer, errors). count - i)") auto

declare verify_loop.simps [simp del]

function verify_random ::
  "nat \<Rightarrow> nat \<Rightarrow> 32 word \<Rightarrow> 32 word list \<Rightarrow> int \<Rightarrow> int \<times> 32 word"
where
  "verify_random i count seed buffer errors =
     (if i < count then
        (let seed' = lcg_next seed in
         if buffer ! i \<noteq> seed' then
           (if errors + 1 > 10 then (errors + 1, seed')
            else verify_random (i + 1) count seed' buffer (errors + 1))
         else verify_random (i + 1) count seed' buffer errors)
      else (errors, seed))"
  by pat_completeness auto
termination
  by (relation "measure (\<lambda>(i, count, seed, buffer, errors). count - i)") auto

declare verify_random.simps [simp del]

definition verify_pattern :: "int \<Rightarrow> 32 word list \<Rightarrow> nat \<Rightarrow> 32 word \<Rightarrow> int \<times> 32 word" where
  "verify_pattern pattern_type buffer count seed =
     (if pattern_type = PATTERN_SEQ then (verify_loop seq_word 0 count buffer 0, seed)
      else if pattern_type = PATTERN_RANDOM then verify_random 0 count seed buffer 0
      else if pattern_type = PATTERN_ONES then
        (verify_loop (\<lambda>_. 0xFFFFFFFF) 0 count buffer 0, seed)
      else if pattern_type = PATTERN_ZEROS then (verify_loop (\<lambda>_. 0) 0 count buffer 0, seed)
      else if pattern_type = PATTERN_ALT then (verify_loop alt_word 0 count buffer 0, seed)
      else (0, seed))"

section \<open>The DMA latency test (litepcie\_dma\_latency\_test.c)\<close>

definition PATTERN_FIXED :: int where "PATTERN_FIXED = 2"
definition PATTERN_WALKING :: int where "PATTERN_WALKING = 3"

text \<open>
  This file has a \<^verbatim>\<open>generate_pattern\<close> and a \<^verbatim>\<open>verify_pattern\<close> of its own; here they carry
  the prefix \<open>lat_\<close>. Pattern types 0 and 1 are \<^verbatim>\<open>PATTERN_SEQ\<close> and \<^verbatim>\<open>PATTERN_RANDOM\<close> as
  above. The four generating branches have the same body and differ in the word stored,
  the argument \<open>f\<close> of \<open>lat_fill\<close>.
  \<^verbatim>\<open>generate_pattern\<close> of this file takes the iteration number. The values that \<^verbatim>\<open>rand()\<close>
  returns during the call are the argument \<open>rnd\<close> (the \<open>i\<close>-th call returns \<open>rnd i\<close>).
  \<^verbatim>\<open>(iteration << 16) | (i & 0xFFFF)\<close> and \<^verbatim>\<open>1 << (i % 32)\<close> are stored into 32-bit words.
\<close>

definition lat_seq_word :: "32 word \<Rightarrow> nat \<Rightarrow> 32 word" where
  "lat_seq_word iteration i =
     ucast ((ucast (push_bit 16 iteration :: 32 word) :: 64 word) OR ((of_nat i :: 64 word) AND 0xFFFF))"

definition walking_word :: "nat \<Rightarrow> 32 word" where
  "walking_word i = push_bit (i mod 32) 1"

function lat_fill :: "(nat \<Rightarrow> 32 word) \<Rightarrow> nat \<Rightarrow> nat \<Rightarrow> 32 word list \<Rightarrow> 32 word list" where
  "lat_fill f i count buffer =
     (if i < count then lat_fill f (i + 1) count (buffer[i := f i]) else buffer)"
  by pat_completeness auto
termination
  by (relation "measure (\<lambda>(f, i, count, buffer). count - i)") auto

declare lat_fill.simps [simp del]

definition lat_generate_pattern ::
  "int \<Rightarrow> (nat \<Rightarrow> 32 word) \<Rightarrow> 32 word list \<Rightarrow> nat \<Rightarrow> 32 word \<Rightarrow> 32 word list"
where
  "lat_generate_pattern pattern_type rnd buffer count iteration =
     (if pattern_type = PATTERN_SEQ then lat_fill (lat_seq_word iteration) 0 count buffer
      else if pattern_type = PATTERN_RANDOM then lat_fill rnd 0 count buffer
      else if pattern_type = PATTERN_FIXED then lat_fill (\<lambda>_. 0xDEADBEEF) 0 count buffer
      else if pattern_type = PATTERN_WALKING then lat_fill walking_word 0 count buffer
      else buffer)"

text \<open>
  \<^verbatim>\<open>verify_pattern\<close> of this file compares the received buffer with a retained copy of the
  transmitted one. \<^verbatim>\<open>errors < 10\<close> guards the \<^verbatim>\<open>printf\<close> only.
\<close>

function lat_verify_loop :: "nat \<Rightarrow> nat \<Rightarrow> 32 word list \<Rightarrow> 32 word list \<Rightarrow> int \<Rightarrow> int" where
  "lat_verify_loop i count buffer expected errors =
     (if i < count then
        lat_verify_loop (i + 1) count buffer expected
          (if buffer ! i \<noteq> expected ! i then errors + 1 else errors)
      else errors)"
  by pat_completeness auto
termination
  by (relation "measure (\<lambda>(i, count, buffer, expected, errors). count - i)") auto

declare lat_verify_loop.simps [simp del]

definition lat_verify_pattern :: "32 word list \<Rightarrow> 32 word list \<Rightarrow> nat \<Rightarrow> int" where
  "lat_verify_pattern buffer expected count = lat_verify_loop 0 count buffer expected 0"

text \<open>
  The specification's reading of verification, for comparison with the code: the payload
  the generator produces for the same arguments, and the number of positions below
  \<open>count\<close> at which a received buffer differs from an expected one.
\<close>

definition mismatches :: "32 word list \<Rightarrow> 32 word list \<Rightarrow> nat \<Rightarrow> nat" where
  "mismatches buffer expected count =
     length (filter (\<lambda>i. buffer ! i \<noteq> expected ! i) [0..<count])"

definition expected_payload :: "int \<Rightarrow> nat \<Rightarrow> 32 word \<Rightarrow> 32 word list" where
  "expected_payload pattern_type count seed =
     fst (generate_pattern pattern_type (replicate count 0) count seed)"

subsection \<open>Configuration and statistics\<close>

text \<open>
  The fields of the global \<^verbatim>\<open>config\<close> that the modelled functions read, and the global
  statistics: \<^verbatim>\<open>stats.count\<close> is \<open>stats_count\<close> and so on, together with the two
  file-scope histogram variables. A pointer is \<open>None\<close> when it is \<^verbatim>\<open>NULL\<close> and holds the
  array otherwise. The four \<^verbatim>\<open>double\<close> accumulators (\<^verbatim>\<open>min_us\<close>, \<^verbatim>\<open>max_us\<close>, \<^verbatim>\<open>sum_us\<close>,
  \<^verbatim>\<open>sum_sq_us\<close>) are floating-point values and are left out of the state.
\<close>

record test_config =
  config_transfer_size :: int
  config_iterations :: int
  config_warmup :: int
  config_pattern_type :: int
  config_verify_data :: int
  config_continuous :: int
  config_histogram :: int
  config_verbose :: int

record stats_state =
  stats_count :: "64 word"
  stats_errors :: "64 word"
  stats_recent_samples :: "64 word list option"
  stats_sample_index :: int
  stats_sample_count :: int
  latency_histogram :: "64 word list option"
  histogram_overflow :: "64 word"

definition HISTOGRAM_BUCKETS :: int where
  "HISTOGRAM_BUCKETS = 1000"

definition UINT64_MAX :: "64 word" where
  "UINT64_MAX = - 1"

text \<open>
  \<^verbatim>\<open>int bucket = (int)latency_us\<close> with \<^verbatim>\<open>latency_us = latency_ns / 1000.0\<close>. Below
  \<open>2\<^sup>3\<^sup>1 \<cdot> 1000\<close> nanoseconds the conversion of \<^verbatim>\<open>latency_ns\<close> to \<^verbatim>\<open>double\<close> is exact, the
  quotient is correctly rounded and stays below the next integer (a non-integral quotient
  is at least \<open>1/1000\<close> away from it, far more than the spacing of doubles in that range),
  so the truncation is \<open>latency_ns div 1000\<close>. From \<open>2\<^sup>3\<^sup>1\<close> microseconds on, the value
  does not fit an \<^verbatim>\<open>int\<close> and the conversion is undefined in C: that is \<open>None\<close>.
\<close>

definition bucket_of :: "64 word \<Rightarrow> int option" where
  "bucket_of latency_ns =
     (let us = uint latency_ns div 1000 in if us < 2 ^ 31 then Some us else None)"

datatype fault = Undefined_conversion

text \<open>The histogram update of lines 201--209.\<close>

definition update_histogram :: "test_config \<Rightarrow> stats_state \<Rightarrow> 64 word \<Rightarrow> fault + stats_state" where
  "update_histogram cfg g latency_ns =
     (if config_histogram cfg \<noteq> 0 then
        (case latency_histogram g of
           None \<Rightarrow> Inr g
         | Some h \<Rightarrow>
             (case bucket_of latency_ns of
                None \<Rightarrow> Inl Undefined_conversion
              | Some bucket \<Rightarrow>
                  if bucket < HISTOGRAM_BUCKETS then
                    Inr (g\<lparr>latency_histogram := Some (h[nat bucket := h ! nat bucket + 1])\<rparr>)
                  else Inr (g\<lparr>histogram_overflow := histogram_overflow g + 1\<rparr>)))
      else Inr g)"

text \<open>The sample store of lines 211--218.\<close>

definition store_sample :: "test_config \<Rightarrow> stats_state \<Rightarrow> 64 word \<Rightarrow> stats_state" where
  "store_sample cfg g latency_ns =
     (case stats_recent_samples g of
        None \<Rightarrow> g
      | Some samples \<Rightarrow>
          if stats_sample_count g < config_iterations cfg then
            (let g1 = g\<lparr>stats_recent_samples :=
                          Some (samples[nat (stats_sample_index g) := latency_ns]),
                        stats_sample_index :=
                          (stats_sample_index g + 1) smod config_iterations cfg\<rparr>
             in if stats_sample_count g1 < config_iterations cfg
                then g1\<lparr>stats_sample_count := stats_sample_count g1 + 1\<rparr> else g1)
          else g)"

definition update_stats :: "test_config \<Rightarrow> stats_state \<Rightarrow> 64 word \<Rightarrow> fault + stats_state" where
  "update_stats cfg g latency_ns =
     (case update_histogram cfg (g\<lparr>stats_count := stats_count g + 1\<rparr>) latency_ns of
        Inl f \<Rightarrow> Inl f
      | Inr g1 \<Rightarrow> Inr (store_sample cfg g1 latency_ns))"

text \<open>A run of \<^verbatim>\<open>update_stats\<close> calls, stopping at the first undefined one.\<close>

fun update_stats_all :: "test_config \<Rightarrow> stats_state \<Rightarrow> 64 word list \<Rightarrow> fault + stats_state" where
  "update_stats_all cfg g [] = Inr g"
| "update_stats_all cfg g (l # ls) =
     (case update_stats cfg g l of Inl f \<Rightarrow> Inl f | Inr g1 \<Rightarrow> update_stats_all cfg g1 ls)"

text \<open>
  The static initialiser of \<^verbatim>\<open>config\<close> (lines 101--114), and the statistics as \<^verbatim>\<open>main\<close>
  leaves them before the threads start (lines 613--627): the histogram is \<^verbatim>\<open>calloc\<close>ed
  when enabled, the sample array is \<^verbatim>\<open>malloc\<close>ed with whatever contents \<open>samples\<close>.
\<close>

definition default_config :: test_config where
  "default_config =
     \<lparr>config_transfer_size = 64, config_iterations = 10000, config_warmup = 1000,
      config_pattern_type = PATTERN_RANDOM, config_verify_data = 1, config_continuous = 0,
      config_histogram = 1, config_verbose = 0\<rparr>"

definition initial_stats :: "test_config \<Rightarrow> 64 word list \<Rightarrow> stats_state" where
  "initial_stats cfg samples =
     \<lparr>stats_count = 0, stats_errors = 0,
      stats_recent_samples = Some samples,
      stats_sample_index = 0, stats_sample_count = 0,
      latency_histogram =
        (if config_histogram cfg \<noteq> 0 then Some (replicate (nat HISTOGRAM_BUCKETS) 0) else None),
      histogram_overflow = 0\<rparr>"

subsection \<open>One measurement\<close>

text \<open>
  \<^verbatim>\<open>measure_dma_latency\<close>: the two bounded waits for a DMA buffer are inputs (\<open>wr_ok\<close>: a write
  buffer arrived within the retries; \<open>rd\<close>: the words of the read buffer, \<open>None\<close> when
  the wait timed out), as are the two clock readings. \<open>write_buf\<close> is the caller's
  buffer of \<^verbatim>\<open>transfer_size\<close> bytes; the result is the returned latency and the statistics.
\<close>

definition measure_dma_latency ::
  "test_config \<Rightarrow> stats_state \<Rightarrow> (nat \<Rightarrow> 32 word) \<Rightarrow> 32 word list \<Rightarrow> 32 word \<Rightarrow> bool \<Rightarrow>
     32 word list option \<Rightarrow> 64 word \<Rightarrow> 64 word \<Rightarrow> 64 word \<times> stats_state"
where
  "measure_dma_latency cfg g rnd write_buf iteration wr_ok rd start end_time =
     (let words = nat (config_transfer_size cfg) div 4;
          write_buf1 = lat_generate_pattern (config_pattern_type cfg) rnd write_buf words iteration;
          verify_buf = write_buf1
      in if \<not> wr_ok then (UINT64_MAX, g)
         else case rd of
           None \<Rightarrow> (UINT64_MAX, g)
         | Some dma_read_buf \<Rightarrow>
             (let read_buf = take words dma_read_buf;
                  g1 = (if config_verify_data cfg \<noteq> 0 then
                          (let errors = lat_verify_pattern read_buf verify_buf words in
                           if errors > 0 then g\<lparr>stats_errors := stats_errors g + of_int errors\<rparr>
                           else g)
                        else g)
              in (end_time - start, g1)))"

text \<open>One pass of the main measurement loop of \<^verbatim>\<open>latency_thread_func\<close> (lines 356--362).\<close>

definition measure_and_record ::
  "test_config \<Rightarrow> stats_state \<Rightarrow> (nat \<Rightarrow> 32 word) \<Rightarrow> 32 word list \<Rightarrow> 32 word \<Rightarrow> bool \<Rightarrow>
     32 word list option \<Rightarrow> 64 word \<Rightarrow> 64 word \<Rightarrow> fault + stats_state"
where
  "measure_and_record cfg g rnd write_buf iteration wr_ok rd start end_time =
     (let (latency_ns, g1) = measure_dma_latency cfg g rnd write_buf iteration wr_ok rd start end_time
      in if latency_ns \<noteq> UINT64_MAX then update_stats cfg g1 latency_ns else Inr g1)"

subsection \<open>Percentiles\<close>

text \<open>
  The exchange sort of \<^verbatim>\<open>calculate_percentile\<close> (lines 403--411) on the copied samples
  (\<open>arr\<close> is the local \<^verbatim>\<open>sorted\<close>).
\<close>

function sort_inner :: "nat \<Rightarrow> nat \<Rightarrow> nat \<Rightarrow> 64 word list \<Rightarrow> 64 word list" where
  "sort_inner i j count arr =
     (if j < count then
        sort_inner i (j + 1) count
          (if arr ! i > arr ! j then arr[i := arr ! j, j := arr ! i] else arr)
      else arr)"
  by pat_completeness auto
termination
  by (relation "measure (\<lambda>(i, j, count, arr). count - j)") auto

declare sort_inner.simps [simp del]

function sort_outer :: "nat \<Rightarrow> nat \<Rightarrow> 64 word list \<Rightarrow> 64 word list" where
  "sort_outer i count arr =
     (if i + 1 < count then sort_outer (i + 1) count (sort_inner i (i + 1) count arr) else arr)"
  by pat_completeness auto
termination
  by (relation "measure (\<lambda>(i, count, arr). count - i)") auto

declare sort_outer.simps [simp del]

text \<open>
  \<^verbatim>\<open>calculate_percentile(p)\<close> for a whole percentage \<open>p\<close>. The product \<^verbatim>\<open>p * count\<close> of two
  integers below \<open>2\<^sup>3\<^sup>1\<close> is exact in \<^verbatim>\<open>double\<close> and its correctly rounded quotient by 100
  truncates to \<open>p * count div 100\<close>. The function returns \<^verbatim>\<open>sorted[index] / 1000.0\<close>; the
  model returns the selected sample in nanoseconds, from which the result is obtained by a
  monotone conversion. \<open>None\<close> stands for the early \<^verbatim>\<open>return 0\<close> (no sample array, no
  samples, or a failed \<^verbatim>\<open>malloc\<close>, input \<open>alloc_ok\<close>).
\<close>

definition calculate_percentile :: "stats_state \<Rightarrow> bool \<Rightarrow> nat \<Rightarrow> 64 word option" where
  "calculate_percentile g alloc_ok p =
     (case stats_recent_samples g of
        None \<Rightarrow> None
      | Some samples \<Rightarrow>
          if stats_sample_count g = 0 then None
          else if \<not> alloc_ok then None
          else
            (let count = stats_sample_count g;
                 arr = sort_outer 0 (nat count) (take (nat count) samples);
                 index = int p * count div 100;
                 index1 = (if index \<ge> count then count - 1 else index)
             in Some (arr ! nat index1)))"


section \<open>The register round-trip test (litepcie\_latency\_test.c)\<close>

text \<open>
  The percentile part of \<^verbatim>\<open>calculate_stats\<close> (lines 121--142). \<^verbatim>\<open>qsort\<close> is the C
  library's and is taken by its contract: the first \<^verbatim>\<open>count\<close> entries of \<^verbatim>\<open>latencies\<close>
  end up in ascending order of \<^verbatim>\<open>compare_uint64\<close>. The indices \<^verbatim>\<open>count * 50 / 100\<close> and so on
  are \<^verbatim>\<open>int\<close> arithmetic, exact while \<open>count * 999\<close> stays below \<open>2\<^sup>3\<^sup>1\<close>. The
  selected samples are recorded in nanoseconds, before the division by \<open>1000.0\<close>.
\<close>

record percentile_stats =
  p50 :: "64 word"
  p90 :: "64 word"
  p95 :: "64 word"
  p99 :: "64 word"
  p999 :: "64 word"

definition calculate_stats :: "64 word list \<Rightarrow> nat \<Rightarrow> percentile_stats" where
  "calculate_stats latencies count =
     (let arr = sort (take count latencies) @ drop count latencies
      in \<lparr>p50 = arr ! (count * 50 div 100),
          p90 = arr ! (count * 90 div 100),
          p95 = arr ! (count * 95 div 100),
          p99 = arr ! (count * 99 div 100),
          p999 = arr ! (count * 999 div 1000)\<rparr>)"

section \<open>The pending queue as a ring\<close>

lemma ring_dist_zero:
  "t < 256 \<Longrightarrow> i < 256 \<Longrightarrow> (t + 256 - i) mod 256 = 0 \<Longrightarrow> i = (t::nat)"
  by (cases "i \<le> t") (auto simp: mod_eq_0_iff_dvd dvd_def le_mod_geq)

lemma ring_index_shift: "(Suc i mod 256 + k) mod 256 = Suc (i + k) mod (256::nat)"
  by (simp add: mod_simps)

lemma ring_dist_Suc:
  assumes "t < 256" "i < 256" "(t + 256 - i) mod 256 = Suc n"
  shows "(t + 256 - (i + 1) mod 256) mod 256 = (n::nat)"
proof (cases "i \<le> t")
  case True
  with assms have "t - i = Suc n" by (simp add: le_mod_geq)
  with assms True show ?thesis by (simp add: le_mod_geq)
next
  case False
  with assms have *: "t + 256 - i = Suc n" by simp
  show ?thesis
  proof (cases "i = 255")
    case True
    with * assms show ?thesis by simp
  next
    case False
    with assms have "(i + 1) mod 256 = i + 1" by simp
    with * assms \<open>\<not> i \<le> t\<close> show ?thesis by simp
  qed
qed

lemma scan_pending_ring:
  assumes "pending_tail st < MAX_PENDING" and "idx < MAX_PENDING"
    and "n = (pending_tail st + MAX_PENDING - idx) mod MAX_PENDING"
  shows "scan_pending packet_size data s rx_time st idx =
           Some (case find (\<lambda>e. sequence e = s)
                        (map (\<lambda>k. pending st ! ((idx + k) mod MAX_PENDING)) [0..<n]) of
                   None \<Rightarrow> (False, st)
                 | Some e \<Rightarrow>
                     (True, if verify_payload 2 (unat packet_size div 4) s data
                            then record_latency st (rx_time - timestamp e) else st))"
  using assms
proof (induction n arbitrary: idx)
  case 0
  then have "idx = pending_tail st"
    using ring_dist_zero[of "pending_tail st" idx] by (simp add: MAX_PENDING_def)
  then show ?case
    by (subst scan_pending.simps) simp
next
  case (Suc n)
  then have ne: "idx \<noteq> pending_tail st"
    by (auto simp: MAX_PENDING_def)
  let ?idx' = "(idx + 1) mod MAX_PENDING"
  have idx': "?idx' < MAX_PENDING"
    by (simp add: MAX_PENDING_def)
  have n: "n = (pending_tail st + MAX_PENDING - ?idx') mod MAX_PENDING"
    using ring_dist_Suc[of "pending_tail st" idx n] Suc.prems by (simp add: MAX_PENDING_def)
  have shift: "map (\<lambda>k. pending st ! ((idx + k) mod MAX_PENDING)) [0..<Suc n] =
          pending st ! idx # map (\<lambda>k. pending st ! ((?idx' + k) mod MAX_PENDING)) [0..<n]"
    using Suc.prems(2)
    by (simp only: upt_conv_Cons[OF zero_less_Suc] map_Suc_upt[symmetric] list.map map_map o_def)
       (simp add: MAX_PENDING_def ring_index_shift)
  show ?case
    apply (subst scan_pending.simps)
    apply (simp only: shift)
    using ne Suc.IH[OF Suc.prems(1) idx' n]
    apply (simp add: Let_def)
    done
qed


lemma record_latency_fields:
  "successful (record_latency st l) = successful st + 1"
  "total_latency (record_latency st l) = total_latency st + l"
  "min_latency (record_latency st l) = min (min_latency st) l"
  "max_latency (record_latency st l) = max (max_latency st) l"
  "duplicates (record_latency st l) = duplicates st"
  "received (record_latency st l) = received st"
  "processed (record_latency st l) = processed st"
  "pending (record_latency st l) = pending st"
  "pending_head (record_latency st l) = pending_head st"
  "pending_tail (record_latency st l) = pending_tail st"
  "writer_sw_count (record_latency st l) = writer_sw_count st"
  by (auto simp: record_latency_def Let_def min_def max_def)

lemma first_echo_matched:
  assumes "pending_head st < MAX_PENDING" and "pending_tail st < MAX_PENDING"
    and "find (\<lambda>e. sequence e = s) (outstanding st) = Some e"
    and "s < iterations" and "processed st ! unat s = 0"
    and "data ! 0 = MARKER_VALUE" and "data ! 1 = s"
    and "verify_payload 2 (unat packet_size div 4) s data"
  shows "receive_path iterations packet_size st (Some data) rx_time =
           Some ((record_latency (st\<lparr>processed := (processed st)[unat s := 1]\<rparr>)
                    (rx_time - timestamp e))
                 \<lparr>received := received st + 1, writer_sw_count := writer_sw_count st + 1\<rparr>)"
proof -
  let ?st = "st\<lparr>processed := (processed st)[unat s := 1]\<rparr>"
  have "scan_pending packet_size data s rx_time ?st (pending_head st) =
          Some (True, record_latency ?st (rx_time - timestamp e))"
  proof -
    have t: "pending_tail ?st < MAX_PENDING"
      using assms(2) by simp
    have f: "find (\<lambda>e. sequence e = s)
               (map (\<lambda>k. pending ?st ! ((pending_head st + k) mod MAX_PENDING))
                  [0..<(pending_tail ?st + MAX_PENDING - pending_head st) mod MAX_PENDING]) =
             Some e"
      using assms(3) unfolding outstanding_def by simp
    show ?thesis
      unfolding scan_pending_ring[OF t assms(1) refl] f
      using assms(8) by simp
  qed
  moreover have "\<not> (s < iterations \<and> processed st ! unat s \<noteq> 0)"
    using assms(5) by simp
  ultimately show ?thesis
    unfolding receive_path_def Let_def option.case assms(6,7)
    using assms(4) by (simp add: record_latency_fields)
qed

lemma repeated_echo_duplicate:
  assumes "s < iterations" and "processed st ! unat s \<noteq> 0"
    and "data ! 0 = MARKER_VALUE" and "data ! 1 = s"
  shows "receive_path iterations packet_size st (Some data) rx_time =
           Some (st\<lparr>duplicates := duplicates st + 1, received := received st + 1,
                    writer_sw_count := writer_sw_count st + 1\<rparr>)"
  using assms by (simp add: receive_path_def Let_def)


lemma ring_len_Suc:
  assumes "t < 256" "h < 256" "(t + 1) mod 256 \<noteq> (h::nat)"
  shows "((t + 1) mod 256 + 256 - h) mod 256 = Suc ((t + 256 - h) mod 256)"
proof (cases "t = 255")
  case True
  with assms have "0 < h" by simp
  with assms True show ?thesis by (simp add: le_mod_geq)
next
  case False
  with assms have t: "(t + 1) mod 256 = t + 1" by simp
  show ?thesis
  proof (cases "h \<le> t")
    case True
    with assms t show ?thesis by (simp add: le_mod_geq)
  next
    case False
    with assms t show ?thesis by simp
  qed
qed

lemma ring_last:
  assumes "t < 256" "h < 256"
  shows "(h + (t + 256 - h) mod 256) mod 256 = (t::nat)"
proof (cases "h \<le> t")
  case True
  with assms show ?thesis by (simp add: le_mod_geq)
next
  case False
  with assms show ?thesis by simp
qed

lemma ring_distinct:
  assumes "t < 256" "h < 256" "k < (t + 256 - h) mod 256"
  shows "(h + k) mod 256 \<noteq> (t::nat)"
proof (cases "h \<le> t")
  case True
  with assms have "k < t - h" by (simp add: le_mod_geq)
  with assms True show ?thesis by simp
next
  case False
  with assms have k: "k < t + 256 - h" by simp
  show ?thesis
  proof (cases "h + k < 256")
    case True
    with False show ?thesis by simp
  next
    case False
    with assms k show ?thesis by (simp add: le_mod_geq)
  qed
qed

lemma send_path_inserts:
  assumes "pending_head st < MAX_PENDING" and "pending_tail st < MAX_PENDING"
    and "length (pending st) = MAX_PENDING"
    and "sent st < iterations"
    and "(pending_tail st + 1) mod MAX_PENDING \<noteq> pending_head st"
  shows "outstanding (send_path iterations st True ts) =
           outstanding st @ [\<lparr>timestamp = ts, sequence = tx_sequence st, marker = MARKER_VALUE\<rparr>]"
proof -
  let ?e = "\<lparr>timestamp = ts, sequence = tx_sequence st, marker = MARKER_VALUE\<rparr>"
  let ?h = "pending_head st" and ?t = "pending_tail st"
  let ?L = "(?t + 256 - ?h) mod 256"
  have h: "?h < 256" and t: "?t < 256" and len: "length (pending st) = 256"
    and nf: "(?t + 1) mod 256 \<noteq> ?h"
    using assms by (simp_all add: MAX_PENDING_def)
  have old: "map (\<lambda>k. (pending st)[?t := ?e] ! ((?h + k) mod 256)) [0..<?L] =
             map (\<lambda>k. pending st ! ((?h + k) mod 256)) [0..<?L]"
    using ring_distinct[OF t h, THEN not_sym] by simp
  have new: "(pending st)[?t := ?e] ! ((?h + ?L) mod 256) = ?e"
    using ring_last[OF t h] t len by simp
  have "outstanding (send_path iterations st True ts) =
          map (\<lambda>k. (pending st)[?t := ?e] ! ((?h + k) mod 256)) [0..<Suc ?L]"
    using assms(4) nf ring_len_Suc[OF t h nf]
    by (simp add: outstanding_def send_path_def store_pending_def Let_def MAX_PENDING_def)
  also have "\<dots> = outstanding st @ [?e]"
    using old new by (simp add: outstanding_def MAX_PENDING_def)
  finally show ?thesis .
qed

lemma receive_path_keeps_outstanding:
  assumes "pending_head st < MAX_PENDING" and "pending_tail st < MAX_PENDING"
  shows "\<exists>st'. receive_path iterations packet_size st buf_rd rx_time = Some st' \<and>
           outstanding st' = outstanding st"
proof (cases buf_rd)
  case None
  then show ?thesis by (simp add: receive_path_def)
next
  case (Some data)
  let ?st = "st\<lparr>processed := (processed st)[unat (data ! 1) := 1]\<rparr>"
  have t: "pending_tail ?st < MAX_PENDING"
    using assms(2) by simp
  show ?thesis
    unfolding Some receive_path_def Let_def option.case scan_pending_ring[OF t assms(1) refl]
    by (simp add: outstanding_def record_latency_fields split: option.splits)
qed

lemma outstanding_bounded: "length (outstanding st) < MAX_PENDING"
  by (simp add: outstanding_def MAX_PENDING_def)


lemma send_burst_state:
  assumes "n < MAX_PENDING" and "n \<le> unat iterations"
  shows "\<exists>st. send_burst iterations packet_size clock n (initial_state iterations) = Some st \<and>
           pending_head st = 0 \<and> pending_tail st = n \<and> length (pending st) = MAX_PENDING \<and>
           sent st = of_nat n \<and> tx_sequence st = of_nat n \<and> reader_sw_count st = int n \<and>
           successful st = 0 \<and> processed st = replicate (unat iterations) 0 \<and>
           received st = 0 \<and> writer_sw_count st = 0 \<and>
           outstanding st =
             map (\<lambda>k. \<lparr>timestamp = clock k, sequence = of_nat k, marker = MARKER_VALUE\<rparr>) [0..<n]"
  using assms
proof (induction n)
  case 0
  show ?case
    by (simp add: initial_state_def outstanding_def MAX_PENDING_def)
next
  case (Suc n)
  then obtain st where st: "send_burst iterations packet_size clock n (initial_state iterations) = Some st"
    "pending_head st = 0" "pending_tail st = n" "length (pending st) = MAX_PENDING"
    "sent st = of_nat n" "tx_sequence st = of_nat n" "reader_sw_count st = int n"
    "successful st = 0" "processed st = replicate (unat iterations) 0"
    "received st = 0" "writer_sw_count st = 0"
    "outstanding st =
       map (\<lambda>k. \<lparr>timestamp = clock k, sequence = of_nat k, marker = MARKER_VALUE\<rparr>) [0..<n]"
    by auto
  have lt: "sent st < iterations"
  proof -
    have "unat (of_nat n :: 32 word) = n"
      using Suc.prems(2) by (intro le_unat_uoi[of _ iterations]) simp
    with Suc.prems(2) st(5) show ?thesis
      by (simp add: word_less_nat_alt)
  qed
  have nf: "(pending_tail st + 1) mod MAX_PENDING \<noteq> pending_head st"
    using Suc.prems st(2,3) by (simp add: MAX_PENDING_def)
  have h: "pending_head st < MAX_PENDING" and t: "pending_tail st < MAX_PENDING"
    using Suc.prems st(2,3) by (simp_all add: MAX_PENDING_def)
  let ?st = "send_path iterations st True (clock n)"
  have out: "outstanding ?st = outstanding st @
      [\<lparr>timestamp = clock n, sequence = tx_sequence st, marker = MARKER_VALUE\<rparr>]"
    using h t st(4) lt nf by (rule send_path_inserts)
  have step: "send_burst iterations packet_size clock (Suc n) (initial_state iterations) = Some ?st"
    by (simp add: st(1) loop_body_def receive_path_def)
  have fields: "pending_head ?st = 0" "pending_tail ?st = Suc n" "length (pending ?st) = MAX_PENDING"
    "sent ?st = of_nat (Suc n)" "tx_sequence ?st = of_nat (Suc n)"
    "reader_sw_count ?st = int (Suc n)" "successful ?st = 0"
    "processed ?st = replicate (unat iterations) 0" "received ?st = 0" "writer_sw_count ?st = 0"
    using lt nf st Suc.prems
    by (simp_all add: send_path_def store_pending_def Let_def MAX_PENDING_def)
  show ?case
    apply (rule exI[of _ ?st])
    apply (simp only: step fields out st(6,12))
    apply simp
    done
qed

lemma full_queue_drops_entry:
  assumes "sent st < iterations" and "(pending_tail st + 1) mod MAX_PENDING = pending_head st"
  shows "send_path iterations st True ts =
           st\<lparr>reader_sw_count := reader_sw_count st + 1, tx_sequence := tx_sequence st + 1,
              sent := sent st + 1\<rparr>"
  using assms by (simp add: send_path_def store_pending_def Let_def)


lemma unmatched_echo:
  assumes "pending_head st < MAX_PENDING" and "pending_tail st < MAX_PENDING"
    and "find (\<lambda>e. sequence e = s) (outstanding st) = None"
    and "s < iterations" and "processed st ! unat s = 0"
    and "data ! 0 = MARKER_VALUE" and "data ! 1 = s"
  shows "receive_path iterations packet_size st (Some data) rx_time =
           Some (st\<lparr>processed := (processed st)[unat s := 1],
                    received := received st + 1, writer_sw_count := writer_sw_count st + 1\<rparr>)"
proof -
  let ?st = "st\<lparr>processed := (processed st)[unat s := 1]\<rparr>"
  have t: "pending_tail ?st < MAX_PENDING"
    using assms(2) by simp
  have f: "find (\<lambda>e. sequence e = s)
             (map (\<lambda>k. pending ?st ! ((pending_head st + k) mod MAX_PENDING))
                [0..<(pending_tail ?st + MAX_PENDING - pending_head st) mod MAX_PENDING]) = None"
    using assms(3) unfolding outstanding_def by simp
  have "scan_pending packet_size data s rx_time ?st (pending_head st) = Some (False, ?st)"
    unfolding scan_pending_ring[OF t assms(1) refl] f by simp
  moreover have "\<not> (s < iterations \<and> processed st ! unat s \<noteq> 0)"
    using assms(5) by simp
  ultimately show ?thesis
    unfolding receive_path_def Let_def option.case assms(6,7)
    using assms(4) by simp
qed

lemma corrupt_echo_not_recorded:
  assumes "pending_head st < MAX_PENDING" and "pending_tail st < MAX_PENDING"
    and "find (\<lambda>e. sequence e = s) (outstanding st) = Some e"
    and "s < iterations" and "processed st ! unat s = 0"
    and "data ! 0 = MARKER_VALUE" and "data ! 1 = s"
    and "\<not> verify_payload 2 (unat packet_size div 4) s data"
  shows "receive_path iterations packet_size st (Some data) rx_time =
           Some (st\<lparr>processed := (processed st)[unat s := 1],
                    received := received st + 1, writer_sw_count := writer_sw_count st + 1\<rparr>)"
proof -
  let ?st = "st\<lparr>processed := (processed st)[unat s := 1]\<rparr>"
  have t: "pending_tail ?st < MAX_PENDING"
    using assms(2) by simp
  have f: "find (\<lambda>e. sequence e = s)
             (map (\<lambda>k. pending ?st ! ((pending_head st + k) mod MAX_PENDING))
                [0..<(pending_tail ?st + MAX_PENDING - pending_head st) mod MAX_PENDING]) = Some e"
    using assms(3) unfolding outstanding_def by simp
  have "scan_pending packet_size data s rx_time ?st (pending_head st) = Some (True, ?st)"
    unfolding scan_pending_ring[OF t assms(1) refl] f using assms(8) by simp
  moreover have "\<not> (s < iterations \<and> processed st ! unat s \<noteq> 0)"
    using assms(5) by simp
  ultimately show ?thesis
    unfolding receive_path_def Let_def option.case assms(6,7)
    using assms(4) by simp
qed

text \<open>Once a sequence number is marked processed, no pass of the loop clears the mark.\<close>

lemma send_path_fields:
  "processed (send_path iterations st buf_wr ts) = processed st"
  "pending_head (send_path iterations st buf_wr ts) = pending_head st"
  "pending_tail st < MAX_PENDING \<Longrightarrow> pending_tail (send_path iterations st buf_wr ts) < MAX_PENDING"
  by (simp_all add: send_path_def store_pending_def Let_def MAX_PENDING_def)

lemma receive_path_keeps_mark:
  assumes "pending_head st < MAX_PENDING" and "pending_tail st < MAX_PENDING"
    and "k < length (processed st)" and "processed st ! k \<noteq> 0"
  shows "\<exists>st'. receive_path iterations packet_size st buf_rd rx_time = Some st' \<and>
           processed st' ! k \<noteq> 0 \<and> length (processed st') = length (processed st) \<and>
           pending_head st' = pending_head st \<and> pending_tail st' = pending_tail st"
proof (cases buf_rd)
  case None
  with assms show ?thesis by (simp add: receive_path_def)
next
  case (Some data)
  let ?st = "st\<lparr>processed := (processed st)[unat (data ! 1) := 1]\<rparr>"
  have t: "pending_tail ?st < MAX_PENDING"
    using assms(2) by simp
  have m: "processed ?st ! k \<noteq> 0"
    using assms(3,4) by (cases "unat (data ! 1) = k") simp_all
  show ?thesis
    unfolding Some receive_path_def Let_def option.case scan_pending_ring[OF t assms(1) refl]
    using assms(3,4) m
    by (simp add: record_latency_fields split: option.splits)
qed

lemma loop_body_keeps_mark:
  assumes "pending_head st < MAX_PENDING" and "pending_tail st < MAX_PENDING"
    and "k < length (processed st)" and "processed st ! k \<noteq> 0"
  shows "\<exists>st'. loop_body iterations packet_size st buf_wr ts buf_rd rx_time = Some st' \<and>
           processed st' ! k \<noteq> 0 \<and> length (processed st') = length (processed st) \<and>
           pending_head st' < MAX_PENDING \<and> pending_tail st' < MAX_PENDING"
proof -
  let ?st = "send_path iterations st buf_wr ts"
  have "pending_head ?st < MAX_PENDING" "pending_tail ?st < MAX_PENDING"
    "k < length (processed ?st)" "processed ?st ! k \<noteq> 0"
    using assms by (simp_all add: send_path_fields)
  from receive_path_keeps_mark[OF this, of iterations packet_size buf_rd rx_time]
  show ?thesis
    using assms(1) \<open>pending_tail ?st < MAX_PENDING\<close>
    by (auto simp: loop_body_def send_path_fields)
qed

text \<open>A packet as the send path writes it passes the integrity check of the receive path.\<close>

lemma fill_packet_length [simp]: "length (fill_packet i n seq data) = length data"
  by (induction i n seq data rule: fill_packet.induct) (subst fill_packet.simps, simp)

lemma fill_packet_nth:
  "n \<le> length data \<Longrightarrow>
     fill_packet i n seq data ! k = (if i \<le> k \<and> k < n then seq + of_nat k else data ! k)"
proof (induction i n seq data rule: fill_packet.induct)
  case (1 i n seq data)
  show ?case
  proof (cases "i < n")
    case True
    consider "k < i" | "k = i" | "Suc i \<le> k"
      by linarith
    then show ?thesis
    proof cases
      case 1
      with True "1.IH" "1.prems" show ?thesis
        by (subst fill_packet.simps) simp
    next
      case 2
      with True "1.IH" "1.prems" show ?thesis
        by (subst fill_packet.simps) simp
    next
      case 3
      with True "1.IH" "1.prems" show ?thesis
        by (subst fill_packet.simps) simp
    qed
  next
    case False
    then show ?thesis
      by (subst fill_packet.simps) auto
  qed
qed

lemma verify_payload_iff:
  "verify_payload i n seq data \<longleftrightarrow> (\<forall>k. i \<le> k \<and> k < n \<longrightarrow> data ! k = seq + of_nat k)"
proof (induction i n seq data rule: verify_payload.induct)
  case (1 i n seq data)
  show ?case
  proof (cases "i < n")
    case True
    show ?thesis
    proof (cases "data ! i = seq + of_nat i")
      case eq: True
      have "(\<forall>k. i \<le> k \<and> k < n \<longrightarrow> data ! k = seq + of_nat k) \<longleftrightarrow>
            (\<forall>k. i + 1 \<le> k \<and> k < n \<longrightarrow> data ! k = seq + of_nat k)"
        using eq by (metis Suc_eq_plus1 Suc_leI le_neq_implies_less add_leD1)
      with True eq "1.IH" show ?thesis
        by (subst verify_payload.simps) simp
    next
      case False
      with True show ?thesis
        by (subst verify_payload.simps) auto
    qed
  next
    case False
    then show ?thesis
      by (subst verify_payload.simps) auto
  qed
qed

lemma make_packet_intact:
  assumes "unat packet_size div 4 \<le> length buf_wr" and "2 \<le> length buf_wr"
  shows "make_packet packet_size seq buf_wr ! 0 = MARKER_VALUE \<and>
         make_packet packet_size seq buf_wr ! 1 = seq \<and>
         verify_payload 2 (unat packet_size div 4) seq (make_packet packet_size seq buf_wr)"
proof -
  let ?d = "(replicate (length buf_wr) 0)[0 := MARKER_VALUE, 1 := seq]"
  have len: "unat packet_size div 4 \<le> length ?d"
    using assms(1) by simp
  from assms(2) obtain a b rest where "buf_wr = a # b # rest"
    by (cases buf_wr; cases "tl buf_wr") auto
  then have "?d ! 0 = MARKER_VALUE" and "?d ! 1 = seq"
    by simp_all
  then show ?thesis
    unfolding make_packet_def verify_payload_iff fill_packet_nth[OF len]
    by simp
qed

section \<open>Properties of the receive path\<close>

text \<open>
  C1. The specification has the first echo of an inserted probe matched and recorded, and
  every further echo of the same sequence number counted as a duplicate. The program
  decides "first" by the \<open>processed\<close> mark, which it sets before it searches the queue
  (line 172), and it records a matched echo only when the payload passes the integrity
  check (lines 192--197). So: let the pending queue hold a probe with sequence number
  \<open>s\<close> (\<open>e\<close> is the oldest such entry; \<open>send_path_inserts\<close> shows that a stored probe
  is appended to \<open>outstanding\<close>, and \<open>receive_path_keeps_outstanding\<close> that no echo
  removes one), and let no marked packet carrying \<open>s\<close> have been handled yet
  (\<open>processed ! s = 0\<close>). Then the next marked packet carrying \<open>s\<close> is matched against
  the queue and \<open>s\<close> is marked processed. If its payload is intact (as that of the
  packet sent is, \<open>make_packet_intact\<close>), the success count goes up by one and the
  latency \<open>rx_time - timestamp e\<close> enters total, minimum and maximum; if it is not,
  success count, total, minimum and maximum stay as they were. In both cases a second
  echo carrying \<open>s\<close>, whatever its payload and arrival time, is not matched again: it
  increments \<open>duplicates\<close> (and \<open>received\<close>, and releases the buffer) and changes nothing
  else, so the latency statistics stay as they were. The same holds for an echo of \<open>s\<close>
  at any later time, since the mark stays (\<open>loop_body_keeps_mark\<close>,
  \<open>repeated_echo_duplicate\<close>).
\<close>

theorem exactly_once_matching:
  assumes "pending_head st < MAX_PENDING" and "pending_tail st < MAX_PENDING"
    and "length (processed st) = unat iterations"
    and "find (\<lambda>e. sequence e = s) (outstanding st) = Some e"
    and "s < iterations" and "processed st ! unat s = 0"
    and "data ! 0 = MARKER_VALUE" and "data ! 1 = s"
    and "data' ! 0 = MARKER_VALUE" and "data' ! 1 = s"
    and "length (pending st) = MAX_PENDING"
    and "unat packet_size div 4 \<le> length data" and "2 \<le> length data"
    and "2 \<le> length data'"
  shows "\<exists>st1. receive_path iterations packet_size st (Some data) rx_time = Some st1 \<and>
           (if verify_payload 2 (unat packet_size div 4) s data
            then successful st1 = successful st + 1 \<and>
                 total_latency st1 = total_latency st + (rx_time - timestamp e) \<and>
                 min_latency st1 = min (min_latency st) (rx_time - timestamp e) \<and>
                 max_latency st1 = max (max_latency st) (rx_time - timestamp e)
            else successful st1 = successful st \<and>
                 total_latency st1 = total_latency st \<and>
                 min_latency st1 = min_latency st \<and>
                 max_latency st1 = max_latency st) \<and>
           duplicates st1 = duplicates st \<and>
           received st1 = received st + 1 \<and>
           writer_sw_count st1 = writer_sw_count st + 1 \<and>
           outstanding st1 = outstanding st \<and>
           processed st1 ! unat s \<noteq> 0 \<and>
           receive_path iterations packet_size st1 (Some data') rx_time' =
             Some (st1\<lparr>duplicates := duplicates st1 + 1, received := received st1 + 1,
                       writer_sw_count := writer_sw_count st1 + 1\<rparr>)"
proof -
  have len: "unat s < length (processed st)"
    using assms(3,5) by (simp add: word_less_nat_alt)
  show ?thesis
  proof (cases "verify_payload 2 (unat packet_size div 4) s data")
    case True
    let ?st1 = "(record_latency (st\<lparr>processed := (processed st)[unat s := 1]\<rparr>)
                    (rx_time - timestamp e))
                 \<lparr>received := received st + 1, writer_sw_count := writer_sw_count st + 1\<rparr>"
    have 1: "receive_path iterations packet_size st (Some data) rx_time = Some ?st1"
      using assms(1,2,4-8) True by (rule first_echo_matched)
    have mark: "processed ?st1 ! unat s \<noteq> 0"
      using len by (simp add: record_latency_fields)
    then have 2: "receive_path iterations packet_size ?st1 (Some data') rx_time' =
             Some (?st1\<lparr>duplicates := duplicates ?st1 + 1, received := received ?st1 + 1,
                       writer_sw_count := writer_sw_count ?st1 + 1\<rparr>)"
      using assms(5,9,10) by (intro repeated_echo_duplicate)
    show ?thesis
      apply (rule exI[of _ ?st1])
      apply (simp only: 1 2)
      using mark True apply (simp add: record_latency_fields outstanding_def)
      done
  next
    case False
    let ?st1 = "st\<lparr>processed := (processed st)[unat s := 1],
                  received := received st + 1, writer_sw_count := writer_sw_count st + 1\<rparr>"
    have 1: "receive_path iterations packet_size st (Some data) rx_time = Some ?st1"
      using assms(1,2,4-8) False by (rule corrupt_echo_not_recorded)
    have mark: "processed ?st1 ! unat s \<noteq> 0"
      using len by simp
    then have 2: "receive_path iterations packet_size ?st1 (Some data') rx_time' =
             Some (?st1\<lparr>duplicates := duplicates ?st1 + 1, received := received ?st1 + 1,
                       writer_sw_count := writer_sw_count ?st1 + 1\<rparr>)"
      using assms(5,9,10) by (intro repeated_echo_duplicate)
    show ?thesis
      apply (rule exI[of _ ?st1])
      apply (simp only: 1 2)
      using mark False apply (simp add: outstanding_def)
      done
  qed
qed

theorem exactly_once_matching_witness:
  "pending_head (send_path 5 (initial_state 5) True 1000) < MAX_PENDING \<and>
   pending_tail (send_path 5 (initial_state 5) True 1000) < MAX_PENDING \<and>
   length (processed (send_path 5 (initial_state 5) True 1000)) = unat (5 :: 32 word) \<and>
   find (\<lambda>e. sequence e = 0) (outstanding (send_path 5 (initial_state 5) True 1000)) =
     Some \<lparr>timestamp = 1000, sequence = 0, marker = MARKER_VALUE\<rparr> \<and>
   (0 :: 32 word) < 5 \<and>
   processed (send_path 5 (initial_state 5) True 1000) ! unat (0 :: 32 word) = 0 \<and>
   verify_payload 2 (unat (16 :: 32 word) div 4) 0 [MARKER_VALUE, 0, 2, 3] \<and>
   length (pending (send_path 5 (initial_state 5) True 1000)) = MAX_PENDING \<and>
   unat (16 :: 32 word) div 4 \<le> length [MARKER_VALUE, 0, 2, 3] \<and>
   (\<exists>st1. receive_path 5 16 (send_path 5 (initial_state 5) True 1000)
             (Some [MARKER_VALUE, 0, 2, 3]) 1250 = Some st1 \<and>
          successful st1 = 1 \<and> total_latency st1 = 250 \<and>
          min_latency st1 = 250 \<and> max_latency st1 = 250 \<and> duplicates st1 = 0 \<and>
          receive_path 5 16 st1 (Some [MARKER_VALUE, 0, 2, 3]) 1300 =
            Some (st1\<lparr>duplicates := 1, received := 2, writer_sw_count := 2\<rparr>))"
proof -
  let ?st = "send_path 5 (initial_state 5) True 1000"
  let ?e = "\<lparr>timestamp = 1000, sequence = 0, marker = MARKER_VALUE\<rparr>"
  have st: "?st = (initial_state 5)
      \<lparr>pending := (pending (initial_state 5))[0 := ?e], pending_tail := 1,
       reader_sw_count := 1, tx_sequence := 1, sent := 1\<rparr>"
    by (simp add: send_path_def store_pending_def initial_state_def MAX_PENDING_def Let_def)
  have h1: "pending_head ?st < MAX_PENDING"
    by (simp add: st) (simp add: initial_state_def MAX_PENDING_def)
  have h2: "pending_tail ?st < MAX_PENDING"
    by (simp add: st) (simp add: initial_state_def MAX_PENDING_def)
  have h3: "length (processed ?st) = unat (5 :: 32 word)"
    by (simp add: st) (simp add: initial_state_def)
  have h4: "find (\<lambda>e. sequence e = 0) (outstanding ?st) = Some ?e"
    by (simp add: st outstanding_def) (simp add: initial_state_def MAX_PENDING_def)
  have h5: "(0 :: 32 word) < 5"
    by simp
  have h6: "processed ?st ! unat (0 :: 32 word) = 0"
    by (simp add: st) (simp add: initial_state_def)
  have h7: "[MARKER_VALUE, 0, 2, 3] ! 0 = MARKER_VALUE" "[MARKER_VALUE, 0, 2, 3] ! 1 = (0 :: 32 word)"
    by simp_all
  have h8: "verify_payload 2 (unat (16 :: 32 word) div 4) 0 [MARKER_VALUE, 0, 2, 3]"
    by (simp add: verify_payload.simps)
  have h9: "length (pending ?st) = MAX_PENDING"
    by (simp add: st) (simp add: initial_state_def)
  have h10: "unat (16 :: 32 word) div 4 \<le> length [MARKER_VALUE, 0, 2, 3]"
    "2 \<le> length [MARKER_VALUE, 0, 2, 3]"
    by simp_all
  from exactly_once_matching [OF h1 h2 h3 h4 h5 h6 h7 h7 h9 h10 h10(2), of 1250 1300]
  obtain st1 where "receive_path 5 16 ?st (Some [MARKER_VALUE, 0, 2, 3]) 1250 = Some st1"
    and "successful st1 = successful ?st + 1"
    and "total_latency st1 = total_latency ?st + (1250 - timestamp ?e)"
    and "min_latency st1 = min (min_latency ?st) (1250 - timestamp ?e)"
    and "max_latency st1 = max (max_latency ?st) (1250 - timestamp ?e)"
    and "duplicates st1 = duplicates ?st"
    and "received st1 = received ?st + 1"
    and "writer_sw_count st1 = writer_sw_count ?st + 1"
    and "outstanding st1 = outstanding ?st"
    and "receive_path 5 16 st1 (Some [MARKER_VALUE, 0, 2, 3]) 1300 =
           Some (st1\<lparr>duplicates := duplicates st1 + 1, received := received st1 + 1,
                     writer_sw_count := writer_sw_count st1 + 1\<rparr>)"
    unfolding if_P[OF h8] by blast
  then have "receive_path 5 16 ?st (Some [MARKER_VALUE, 0, 2, 3]) 1250 = Some st1 \<and>
          successful st1 = 1 \<and> total_latency st1 = 250 \<and>
          min_latency st1 = 250 \<and> max_latency st1 = 250 \<and> duplicates st1 = 0 \<and>
          receive_path 5 16 st1 (Some [MARKER_VALUE, 0, 2, 3]) 1300 =
            Some (st1\<lparr>duplicates := 1, received := 2, writer_sw_count := 2\<rparr>)"
    by (simp add: st) (simp add: initial_state_def)
  then show ?thesis
    using h1 h2 h3 h4 h5 h6 h8 h9 h10(1) by blast
qed

text \<open>
  Without the two conditions the first echo of an inserted probe need not be recorded.
  After one send from the initial state the queue holds the probe with sequence number 0,
  stamped 1000. Its echo arrives at 1250 with the last payload word corrupted: it is marked
  processed and received, and the success count stays 0. The intact echo that follows at
  1300 is counted as a duplicate; the probe is never measured. (A marked packet carrying
  the number of a probe not yet sent has the same effect on that probe's echo.)
\<close>

theorem corrupt_first_echo_blocks_match:
  "outstanding (send_path 5 (initial_state 5) True 1000) =
     [\<lparr>timestamp = 1000, sequence = 0, marker = MARKER_VALUE\<rparr>] \<and>
   successful (send_path 5 (initial_state 5) True 1000) = 0 \<and>
   total_latency (send_path 5 (initial_state 5) True 1000) = 0 \<and>
   receive_path 5 16 (send_path 5 (initial_state 5) True 1000)
     (Some [MARKER_VALUE, 0, 2, 99]) 1250 =
   Some ((send_path 5 (initial_state 5) True 1000)
           \<lparr>processed := [1, 0, 0, 0, 0], received := 1, writer_sw_count := 1\<rparr>) \<and>
   receive_path 5 16
     ((send_path 5 (initial_state 5) True 1000)
        \<lparr>processed := [1, 0, 0, 0, 0], received := 1, writer_sw_count := 1\<rparr>)
     (Some [MARKER_VALUE, 0, 2, 3]) 1300 =
   Some ((send_path 5 (initial_state 5) True 1000)
           \<lparr>processed := [1, 0, 0, 0, 0], received := 2, writer_sw_count := 2,
            duplicates := 1\<rparr>)"
proof -
  let ?st = "send_path 5 (initial_state 5) True 1000"
  let ?e = "\<lparr>timestamp = 1000, sequence = 0, marker = MARKER_VALUE\<rparr>"
  have st: "?st = (initial_state 5)
      \<lparr>pending := (pending (initial_state 5))[0 := ?e], pending_tail := 1,
       reader_sw_count := 1, tx_sequence := 1, sent := 1\<rparr>"
    by (simp add: send_path_def store_pending_def initial_state_def MAX_PENDING_def Let_def)
  have out: "outstanding ?st = [?e]"
    by (simp add: st outstanding_def) (simp add: initial_state_def MAX_PENDING_def)
  have zero: "successful ?st = 0" "total_latency ?st = 0" "received ?st = 0"
    "writer_sw_count ?st = 0" "duplicates ?st = 0"
    by (simp_all add: st) (simp_all add: initial_state_def)
  have p: "(processed ?st)[0 := 1] = [1, 0, 0, 0, 0]"
    by code_simp
  have bad: "\<not> verify_payload 2 (unat (16 :: 32 word) div 4) 0 [MARKER_VALUE, 0, 2, 99]"
    by (simp add: verify_payload.simps)
  have first: "receive_path 5 16 ?st (Some [MARKER_VALUE, 0, 2, 99]) 1250 =
      Some (?st\<lparr>processed := (processed ?st)[unat (0 :: 32 word) := 1],
                received := received ?st + 1, writer_sw_count := writer_sw_count ?st + 1\<rparr>)"
  proof (rule corrupt_echo_not_recorded)
    show "pending_head ?st < MAX_PENDING" "pending_tail ?st < MAX_PENDING"
      by (simp_all add: st) (simp_all add: initial_state_def MAX_PENDING_def)
    show "find (\<lambda>e. sequence e = 0) (outstanding ?st) = Some ?e"
      by (simp add: out)
    show "(0 :: 32 word) < 5"
      by simp
    show "processed ?st ! unat (0 :: 32 word) = 0"
      by (simp add: st) (simp add: initial_state_def)
    show "[MARKER_VALUE, 0, 2, 99] ! 0 = MARKER_VALUE" "[MARKER_VALUE, 0, 2, 99] ! 1 = (0 :: 32 word)"
      by simp_all
    show "\<not> verify_payload 2 (unat (16 :: 32 word) div 4) 0 [MARKER_VALUE, 0, 2, 99]"
      by (fact bad)
  qed
  let ?st1 = "?st\<lparr>processed := [1, 0, 0, 0, 0], received := 1, writer_sw_count := 1\<rparr>"
  have second: "receive_path 5 16 ?st1 (Some [MARKER_VALUE, 0, 2, 3]) 1300 =
      Some (?st1\<lparr>duplicates := duplicates ?st1 + 1, received := received ?st1 + 1,
                 writer_sw_count := writer_sw_count ?st1 + 1\<rparr>)"
    by (rule repeated_echo_duplicate) simp_all
  show ?thesis
    using first second by (simp add: out zero p)
qed

text \<open>
  C2. The specification requires that a full pending queue is signalled to the producer,
  which then holds the probe back. The queue is full once it holds 255 entries (the slot before the
  head stays free), the head never advances, and the store at lines 139--144 has no
  \<^verbatim>\<open>else\<close>: the probe is transmitted all the same. With 1000 iterations (the default)
  and a write buffer in each of the first 256 passes, the first 255 probes are queued; in
  pass 256 the probe with sequence number 255 is sent (\<open>sent\<close>, \<open>tx_sequence\<close> and
  \<open>reader_sw_count\<close> advance to 256) while the queue stays exactly as it was and holds
  no entry for it. Its echo is then not matched: it is marked processed and counted as
  received, and \<open>successful\<close> stays behind \<open>sent\<close>. The bound on the number of
  entries and the absence of eviction do hold (\<open>outstanding_bounded\<close>,
  \<open>full_queue_drops_entry\<close>).
\<close>

theorem full_queue_probe_sent_untracked:
  "\<exists>st. send_burst 1000 8 of_nat 255 (initial_state 1000) = Some st \<and>
     length (outstanding st) = 255 \<and> sent st = 255 \<and> reader_sw_count st = 255 \<and>
     loop_body 1000 8 st True 255 None 0 =
       Some (st\<lparr>reader_sw_count := 256, tx_sequence := 256, sent := 256\<rparr>) \<and>
     outstanding (st\<lparr>reader_sw_count := 256, tx_sequence := 256, sent := 256\<rparr>) = outstanding st \<and>
     find (\<lambda>e. sequence e = 255) (outstanding st) = None \<and>
     receive_path 1000 8 (st\<lparr>reader_sw_count := 256, tx_sequence := 256, sent := 256\<rparr>)
         (Some [MARKER_VALUE, 255]) 300 =
       Some (st\<lparr>reader_sw_count := 256, tx_sequence := 256, sent := 256,
                processed := (processed st)[255 := 1], received := 1, writer_sw_count := 1\<rparr>)"
proof -
  have "(255::nat) < MAX_PENDING" and "(255::nat) \<le> unat (1000 :: 32 word)"
    by (simp_all add: MAX_PENDING_def)
  from send_burst_state[OF this, of 8 of_nat]
  obtain st where st: "send_burst 1000 8 of_nat 255 (initial_state 1000) = Some st"
    "pending_head st = 0" "pending_tail st = 255" "length (pending st) = MAX_PENDING"
    "sent st = 255" "tx_sequence st = 255" "reader_sw_count st = 255"
    "successful st = 0" "processed st = replicate (unat (1000 :: 32 word)) 0"
    "received st = 0" "writer_sw_count st = 0"
    "outstanding st =
       map (\<lambda>k. \<lparr>timestamp = of_nat k, sequence = of_nat k, marker = MARKER_VALUE\<rparr>) [0..<255]"
    by auto
  let ?st = "st\<lparr>reader_sw_count := 256, tx_sequence := 256, sent := 256\<rparr>"
  have len: "length (outstanding st) = 255"
    by (simp add: st(12))
  have full: "(pending_tail st + 1) mod MAX_PENDING = pending_head st"
    by (simp add: st(2,3) MAX_PENDING_def)
  have drop: "loop_body 1000 8 st True 255 None 0 = Some ?st"
    using full_queue_drops_entry[of st 1000 255, OF _ full]
    by (simp add: loop_body_def receive_path_def st(5,6,7))
  have same: "outstanding ?st = outstanding st"
    by (simp add: outstanding_def)
  have none: "find (\<lambda>e. sequence e = 255) (outstanding st) = None"
  proof -
    have "of_nat k \<noteq> (255 :: 32 word)" if "k < 255" for k
    proof -
      have "unat (of_nat k :: 32 word) = k"
        using that by (simp add: unat_of_nat)
      with that show ?thesis by auto
    qed
    then show ?thesis
      unfolding st(12) find_None_iff by auto
  qed
  have echo: "receive_path 1000 8 ?st (Some [MARKER_VALUE, 255]) 300 =
       Some (?st\<lparr>processed := (processed ?st)[unat (255 :: 32 word) := 1],
                received := received ?st + 1, writer_sw_count := writer_sw_count ?st + 1\<rparr>)"
    by (rule unmatched_echo) (simp_all add: st(2-11) same none MAX_PENDING_def)
  show ?thesis
    apply (rule exI[of _ st])
    apply (simp only: st(1) len drop same none echo st(5,7))
    apply (simp add: st(2-11))
    done
qed

text \<open>
  C7. The specification has an echo with a foreign marker counted as spurious and
  otherwise ignored. The program ignores it and does not count it: an echo whose first
  word is not the marker is dropped without a trace,
  the buffer is released (\<open>writer_sw_count\<close> advances) and nothing else in the state
  changes. The latency statistics, the pending queue and the \<open>processed\<close> marks are
  untouched, and no counter records the event: the test has no counter for foreign
  traffic, and \<open>received\<close> counts marked packets only.
\<close>

theorem foreign_marker_ignored:
  assumes "data ! 0 \<noteq> MARKER_VALUE" and "data \<noteq> []"
  shows "receive_path iterations packet_size st (Some data) rx_time =
           Some (st\<lparr>writer_sw_count := writer_sw_count st + 1\<rparr>)"
  using assms by (simp add: receive_path_def)

theorem foreign_marker_ignored_witness:
  "[0xDEADBEEF, 0, 2, 3] ! 0 \<noteq> MARKER_VALUE \<and> [0xDEADBEEF, 0, 2, 3 :: 32 word] \<noteq> [] \<and>
   receive_path 5 16 (send_path 5 (initial_state 5) True 1000) (Some [0xDEADBEEF, 0, 2, 3]) 1250 =
     Some ((send_path 5 (initial_state 5) True 1000)\<lparr>writer_sw_count := 1\<rparr>)"
proof -
  have h: "[0xDEADBEEF, 0, 2, 3] ! 0 \<noteq> MARKER_VALUE"
    by (simp add: MARKER_VALUE_def)
  show ?thesis
    using h foreign_marker_ignored [OF h, of 5 16 "send_path 5 (initial_state 5) True 1000" 1250]
    by (simp add: send_path_def store_pending_def initial_state_def Let_def MAX_PENDING_def)
qed


text \<open>
  Where the specification expects a spurious-echo count there is none: at the start of a
  run with five iterations, a buffer beginning with \<open>0xDEADBEEF\<close> leaves every counter
  of the state at zero; only \<open>writer_sw_count\<close> moves.
\<close>

theorem foreign_marker_not_counted:
  "receive_path 5 16 (initial_state 5) (Some [0xDEADBEEF, 0, 2, 3]) 1250 =
     Some \<lparr>pending = replicate MAX_PENDING \<lparr>timestamp = 0, sequence = 0, marker = 0\<rparr>,
           pending_head = 0, pending_tail = 0,
           processed = replicate 5 0,
           min_latency = - 1, max_latency = 0, total_latency = 0,
           successful = 0, tx_sequence = 0, duplicates = 0,
           sent = 0, received = 0,
           reader_sw_count = 0, writer_sw_count = 1\<rparr>"
  by (simp add: receive_path_def initial_state_def MARKER_VALUE_def)

text \<open>
  C10. An echo that carries the marker but a sequence number greater than or equal to the
  iteration count takes neither branch of lines 168--209: nothing is marked processed, the
  pending queue is not searched or changed, no duplicate is counted and the latency
  statistics are untouched. Only \<open>received\<close> is incremented and the buffer is released
  (\<open>writer_sw_count\<close> advances).
\<close>

theorem out_of_range_sequence_only_received:
  assumes "data ! 0 = MARKER_VALUE" and "iterations \<le> data ! 1" and "2 \<le> length data"
  shows "receive_path iterations packet_size st (Some data) rx_time =
           Some (st\<lparr>received := received st + 1, writer_sw_count := writer_sw_count st + 1\<rparr>)"
proof -
  from assms(2) have "\<not> data ! 1 < iterations"
    by (simp add: not_less)
  with assms(1) show ?thesis
    by (simp add: receive_path_def Let_def)
qed

theorem out_of_range_sequence_only_received_witness:
  "[MARKER_VALUE, 7, 9] ! 0 = MARKER_VALUE \<and> (5 :: 32 word) \<le> [MARKER_VALUE, 7, 9] ! 1 \<and>
   2 \<le> length [MARKER_VALUE, 7, 9] \<and>
   receive_path 5 12 (initial_state 5) (Some [MARKER_VALUE, 7, 9]) 100 =
     Some ((initial_state 5)\<lparr>received := 1, writer_sw_count := 1\<rparr>)"
  using out_of_range_sequence_only_received
          [of "[MARKER_VALUE, 7, 9]" 5 12 "initial_state 5" 100]
  by (simp add: initial_state_def)

section \<open>Pattern generation and verification\<close>

lemma gen_seq_length [simp]: "length (gen_seq i n buf) = length buf"
  by (induction i n buf rule: gen_seq.induct) (subst gen_seq.simps, simp)

lemma gen_seq_nth:
  "n \<le> length buf \<Longrightarrow> k < n \<Longrightarrow>
     gen_seq i n buf ! k = (if i \<le> k then seq_word k else buf ! k)"
proof (induction i n buf rule: gen_seq.induct)
  case (1 i n buf)
  show ?case
  proof (cases "i < n")
    case True
    consider "k < i" | "k = i" | "Suc i \<le> k"
      by linarith
    then show ?thesis
    proof cases
      case 1
      with True "1.IH" "1.prems" show ?thesis
        by (subst gen_seq.simps) simp
    next
      case 2
      with True "1.IH" "1.prems" show ?thesis
        by (subst gen_seq.simps) simp
    next
      case 3
      with True "1.IH" "1.prems" show ?thesis
        by (subst gen_seq.simps) simp
    qed
  next
    case False
    with 1 show ?thesis
      by (subst gen_seq.simps) simp
  qed
qed

lemma gen_alt_length [simp]: "length (gen_alt i n buf) = length buf"
  by (induction i n buf rule: gen_alt.induct) (subst gen_alt.simps, simp)

lemma gen_alt_nth:
  "n \<le> length buf \<Longrightarrow> k < n \<Longrightarrow>
     gen_alt i n buf ! k = (if i \<le> k then alt_word k else buf ! k)"
proof (induction i n buf rule: gen_alt.induct)
  case (1 i n buf)
  show ?case
  proof (cases "i < n")
    case True
    consider "k < i" | "k = i" | "Suc i \<le> k"
      by linarith
    then show ?thesis
    proof cases
      case 1
      with True "1.IH" "1.prems" show ?thesis
        by (subst gen_alt.simps) simp
    next
      case 2
      with True "1.IH" "1.prems" show ?thesis
        by (subst gen_alt.simps) simp
    next
      case 3
      with True "1.IH" "1.prems" show ?thesis
        by (subst gen_alt.simps) simp
    qed
  next
    case False
    with 1 show ?thesis
      by (subst gen_alt.simps) simp
  qed
qed

lemma gen_random_length [simp]: "length (fst (gen_random i n seed buf)) = length buf"
  by (induction i n seed buf rule: gen_random.induct)
     (subst gen_random.simps, simp add: Let_def)

lemma gen_random_nth:
  "n \<le> length buf \<Longrightarrow> k < n \<Longrightarrow>
     fst (gen_random i n seed buf) ! k =
       (if i \<le> k then (lcg_next ^^ (Suc k - i)) seed else buf ! k)"
proof (induction i n seed buf arbitrary: rule: gen_random.induct)
  case (1 i n seed buf)
  show ?case
  proof (cases "i < n")
    case True
    show ?thesis
    proof (cases "i \<le> k")
      case False
      with True 1 show ?thesis
        by (subst gen_random.simps) (simp add: Let_def)
    next
      case ik: True
      show ?thesis
      proof (cases "k = i")
        case True
        with \<open>i < n\<close> 1 show ?thesis
          by (subst gen_random.simps) (simp add: Let_def)
      next
        case False
        with ik have "Suc k - i = Suc (k - i)" "Suc i \<le> k" by simp_all
        with \<open>i < n\<close> 1 show ?thesis
          by (subst gen_random.simps) (simp add: Let_def funpow_swap1)
      qed
    qed
  next
    case False
    with 1 show ?thesis
      by (subst gen_random.simps) simp
  qed
qed

lemma memset_words_nth:
  "n \<le> length buf \<Longrightarrow> k < n \<Longrightarrow> memset_words w n buf ! k = w"
  by (simp add: memset_words_def nth_append)

lemma verify_loop_count:
  "0 \<le> e \<Longrightarrow> e \<le> 10 \<Longrightarrow>
     verify_loop ex i n buf e =
       min (e + int (length (filter (\<lambda>k. buf ! k \<noteq> ex k) [i..<n]))) 11"
proof (induction ex i n buf e rule: verify_loop.induct)
  case (1 ex i n buf e)
  show ?case
  proof (cases "i < n")
    case True
    then have upt: "[i..<n] = i # [Suc i..<n]"
      by (simp add: upt_conv_Cons)
    from True 1 show ?thesis
      by (subst verify_loop.simps) (auto simp: upt)
  next
    case False
    with 1 show ?thesis
      by (subst verify_loop.simps) simp
  qed
qed

lemma verify_random_count:
  "0 \<le> e \<Longrightarrow> e \<le> 10 \<Longrightarrow>
     fst (verify_random i n seed buf e) =
       min (e + int (length (filter (\<lambda>k. buf ! k \<noteq> (lcg_next ^^ (Suc k - i)) seed) [i..<n]))) 11"
proof (induction i n seed buf e rule: verify_random.induct)
  case (1 i n seed buf e)
  show ?case
  proof (cases "i < n")
    case True
    then have upt: "[i..<n] = i # [Suc i..<n]"
      by (simp add: upt_conv_Cons)
    have shift: "filter (\<lambda>k. buf ! k \<noteq> (lcg_next ^^ (k - i)) (lcg_next seed)) [Suc i..<n] =
                 filter (\<lambda>k. buf ! k \<noteq> (lcg_next ^^ (Suc k - i)) seed) [Suc i..<n]"
    proof (rule filter_cong[OF refl])
      fix k assume "k \<in> set [Suc i..<n]"
      then have "Suc k - i = Suc (k - i)" by auto
      then show "(buf ! k \<noteq> (lcg_next ^^ (k - i)) (lcg_next seed)) =
                 (buf ! k \<noteq> (lcg_next ^^ (Suc k - i)) seed)"
        by (simp add: funpow_swap1)
    qed
    from True 1 show ?thesis
      by (subst verify_random.simps) (auto simp: upt Let_def shift)
  next
    case False
    with 1 show ?thesis
      by (subst verify_random.simps) simp
  qed
qed

lemma lat_fill_length [simp]: "length (lat_fill f i n buf) = length buf"
  by (induction f i n buf rule: lat_fill.induct) (subst lat_fill.simps, simp)

lemma lat_verify_loop_count:
  "lat_verify_loop i n buf ex e =
     e + int (length (filter (\<lambda>k. buf ! k \<noteq> ex ! k) [i..<n]))"
proof (induction i n buf ex e rule: lat_verify_loop.induct)
  case (1 i n buf ex e)
  show ?case
  proof (cases "i < n")
    case True
    then have upt: "[i..<n] = i # [Suc i..<n]"
      by (simp add: upt_conv_Cons)
    from True 1 show ?thesis
      by (subst lat_verify_loop.simps) (simp add: upt)
  next
    case False
    then show ?thesis
      by (subst lat_verify_loop.simps) simp
  qed
qed

lemma verify_loop_clean:
  assumes "\<And>k. k < n \<Longrightarrow> buf ! k = ex k"
  shows "verify_loop ex 0 n buf 0 = 0"
proof -
  have "filter (\<lambda>k. buf ! k \<noteq> ex k) [0..<n] = []"
    using assms by (simp add: filter_empty_conv)
  then show ?thesis
    by (simp add: verify_loop_count)
qed

lemma verify_random_clean:
  assumes "\<And>k. k < n \<Longrightarrow> buf ! k = (lcg_next ^^ Suc k) seed"
  shows "fst (verify_random 0 n seed buf 0) = 0"
proof -
  have "filter (\<lambda>k. buf ! k \<noteq> (lcg_next ^^ (Suc k - 0)) seed) [0..<n] = []"
    using assms by (simp add: filter_empty_conv)
  then show ?thesis
    by (simp add: verify_random_count)
qed

lemma verify_generate_v2:
  assumes "count \<le> length buffer"
  shows "fst (verify_pattern pt (fst (generate_pattern pt buffer count seed)) count seed) = 0"
proof -
  consider "pt = PATTERN_SEQ" | "pt = PATTERN_RANDOM" | "pt = PATTERN_ONES"
    | "pt = PATTERN_ZEROS" | "pt = PATTERN_ALT"
    | "pt \<notin> {PATTERN_SEQ, PATTERN_RANDOM, PATTERN_ONES, PATTERN_ZEROS, PATTERN_ALT}"
    by blast
  then show ?thesis
  proof cases
    case 1
    then show ?thesis
      using assms by (simp add: verify_pattern_def generate_pattern_def verify_loop_clean gen_seq_nth)
  next
    case 2
    have "fst (verify_random 0 count seed (fst (gen_random 0 count seed buffer)) 0) = 0"
      using assms by (intro verify_random_clean) (simp add: gen_random_nth)
    with 2 show ?thesis
      by (simp add: verify_pattern_def generate_pattern_def PATTERN_SEQ_def PATTERN_RANDOM_def)
  next
    case 3
    then show ?thesis
      using assms
      by (simp add: verify_pattern_def generate_pattern_def verify_loop_clean memset_words_nth
            PATTERN_SEQ_def PATTERN_RANDOM_def PATTERN_ONES_def)
  next
    case 4
    then show ?thesis
      using assms
      by (simp add: verify_pattern_def generate_pattern_def verify_loop_clean memset_words_nth
            PATTERN_SEQ_def PATTERN_RANDOM_def PATTERN_ONES_def PATTERN_ZEROS_def)
  next
    case 5
    then show ?thesis
      using assms
      by (simp add: verify_pattern_def generate_pattern_def verify_loop_clean gen_alt_nth
            PATTERN_SEQ_def PATTERN_RANDOM_def PATTERN_ONES_def PATTERN_ZEROS_def PATTERN_ALT_def)
  next
    case 6
    then show ?thesis
      by (simp add: verify_pattern_def)
  qed
qed


lemma lat_generate_pattern_length [simp]:
  "length (lat_generate_pattern pt rnd buffer count iteration) = length buffer"
  by (simp add: lat_generate_pattern_def)

lemma lat_verify_clean:
  assumes "\<And>k. k < count \<Longrightarrow> buffer ! k = expected ! k"
  shows "lat_verify_pattern buffer expected count = 0"
proof -
  have "filter (\<lambda>k. buffer ! k \<noteq> expected ! k) [0..<count] = []"
    using assms by (simp add: filter_empty_conv)
  then show ?thesis
    by (simp add: lat_verify_pattern_def lat_verify_loop_count)
qed

lemma loopback_measurement_clean:
  assumes "nat (config_transfer_size cfg) div 4 \<le> length write_buf"
  shows "measure_dma_latency cfg g rnd write_buf iteration True
           (Some (lat_generate_pattern (config_pattern_type cfg) rnd write_buf
                    (nat (config_transfer_size cfg) div 4) iteration @ rest))
           start end_time = (end_time - start, g)"
proof -
  let ?n = "nat (config_transfer_size cfg) div 4"
  let ?gen = "lat_generate_pattern (config_pattern_type cfg) rnd write_buf ?n iteration"
  have "lat_verify_pattern (take ?n ?gen) ?gen ?n = 0"
    by (rule lat_verify_clean) simp
  then show ?thesis
    using assms by (simp add: measure_dma_latency_def Let_def)
qed

text \<open>
  C3. Verifying a freshly generated payload reports no mismatch. In
  litepcie\_dma\_test\_optimized\_v2.c this holds for every pattern type, every seed and
  every word count that fits the buffer, the verifier starting from the generator's
  starting seed. In litepcie\_dma\_latency\_test.c the verifier compares with a retained
  copy of the generated buffer, for every pattern type, iteration number and sequence of
  \<^verbatim>\<open>rand()\<close> results; a measurement whose read buffer begins with the words just
  generated therefore leaves \<^verbatim>\<open>stats.errors\<close> as it was.
\<close>

theorem verify_of_generated_is_zero:
  assumes "count \<le> length buffer"
    and "nat (config_transfer_size cfg) div 4 \<le> length write_buf"
  shows "fst (verify_pattern pt (fst (generate_pattern pt buffer count seed)) count seed) = 0 \<and>
         lat_verify_pattern (lat_generate_pattern pt' rnd buffer count iteration)
           (lat_generate_pattern pt' rnd buffer count iteration) count = 0 \<and>
         measure_dma_latency cfg g rnd write_buf iteration True
           (Some (lat_generate_pattern (config_pattern_type cfg) rnd write_buf
                    (nat (config_transfer_size cfg) div 4) iteration @ rest))
           start end_time = (end_time - start, g)"
  using verify_generate_v2[OF assms(1)] loopback_measurement_clean[OF assms(2)]
  by (simp add: lat_verify_clean)

theorem verify_of_generated_is_zero_witness:
  "(4::nat) \<le> length [7, 7, 7, 7, 7 :: 32 word] \<and>
   generate_pattern PATTERN_RANDOM [7, 7, 7, 7, 7] 4 1 =
     ([69070, 475628535, 3277404108, 772999773, 7], 772999773) \<and>
   fst (verify_pattern PATTERN_RANDOM [69070, 475628535, 3277404108, 772999773, 7] 4 1) = 0 \<and>
   lat_generate_pattern PATTERN_SEQ (\<lambda>_. 0) [7, 7, 7, 7, 7] 4 3 =
     [0x30000, 0x30001, 0x30002, 0x30003, 7] \<and>
   lat_verify_pattern [0x30000, 0x30001, 0x30002, 0x30003, 7]
     [0x30000, 0x30001, 0x30002, 0x30003, 7] 4 = 0 \<and>
   nat (config_transfer_size (default_config\<lparr>config_transfer_size := 16,
          config_pattern_type := PATTERN_SEQ\<rparr>)) div 4 \<le> length [7, 7, 7, 7, 7 :: 32 word] \<and>
   measure_dma_latency
     (default_config\<lparr>config_transfer_size := 16, config_pattern_type := PATTERN_SEQ\<rparr>)
     (initial_stats default_config []) (\<lambda>_. 0) [7, 7, 7, 7, 7] 3 True
     (Some [0x30000, 0x30001, 0x30002, 0x30003, 7, 9]) 1000 6000 =
   (5000, initial_stats default_config [])"
proof -
  let ?cfg = "default_config\<lparr>config_transfer_size := 16, config_pattern_type := PATTERN_SEQ\<rparr>"
  have h: "(4::nat) \<le> length [7, 7, 7, 7, 7 :: 32 word]"
    by simp
  have h': "nat (config_transfer_size ?cfg) div 4 \<le> length [7, 7, 7, 7, 7 :: 32 word]"
    by (simp add: default_config_def)
  have c: "config_pattern_type ?cfg = PATTERN_SEQ" "nat (config_transfer_size ?cfg) div 4 = 4"
    by (simp_all add: default_config_def)
  have g: "generate_pattern PATTERN_RANDOM [7, 7, 7, 7, 7] 4 1 =
     ([69070, 475628535, 3277404108, 772999773, 7], 772999773)"
    by (simp add: generate_pattern_def PATTERN_RANDOM_def PATTERN_SEQ_def gen_random.simps
          lcg_next_def Let_def)
  have l: "lat_generate_pattern PATTERN_SEQ (\<lambda>_. 0) [7, 7, 7, 7, 7] 4 3 =
     [0x30000, 0x30001, 0x30002, 0x30003, 7]"
    by (simp add: lat_generate_pattern_def PATTERN_SEQ_def lat_fill.simps lat_seq_word_def)
  show ?thesis
    using h h' g l
      verify_of_generated_is_zero [OF h h', of PATTERN_RANDOM 1 PATTERN_SEQ "\<lambda>_. 0" 3
        "initial_stats default_config []" "[9]" 1000 6000]
    by (simp add: c)
qed

lemma expected_payload_nth:
  assumes "pt \<in> {PATTERN_SEQ, PATTERN_RANDOM, PATTERN_ONES, PATTERN_ZEROS, PATTERN_ALT}"
    and "k < count"
  shows "expected_payload pt count seed ! k =
           (if pt = PATTERN_SEQ then seq_word k
            else if pt = PATTERN_RANDOM then (lcg_next ^^ Suc k) seed
            else if pt = PATTERN_ONES then 0xFFFFFFFF
            else if pt = PATTERN_ZEROS then 0
            else alt_word k)"
  using assms
  by (auto simp: expected_payload_def generate_pattern_def gen_seq_nth gen_random_nth
        memset_words_nth gen_alt_nth)

lemma mismatches_cong:
  assumes "\<And>k. k < count \<Longrightarrow> expected ! k = ex k"
  shows "mismatches buffer expected count = length (filter (\<lambda>k. buffer ! k \<noteq> ex k) [0..<count])"
  unfolding mismatches_def
  by (rule arg_cong[where f = length], rule filter_cong[OF refl]) (simp add: assms)

lemma verify_pattern_v2_count:
  assumes "pt \<in> {PATTERN_SEQ, PATTERN_RANDOM, PATTERN_ONES, PATTERN_ZEROS, PATTERN_ALT}"
  shows "fst (verify_pattern pt buffer count seed) =
           int (min (mismatches buffer (expected_payload pt count seed) count) 11)"
proof -
  let ?ex = "\<lambda>k. if pt = PATTERN_SEQ then seq_word k
            else if pt = PATTERN_RANDOM then (lcg_next ^^ Suc k) seed
            else if pt = PATTERN_ONES then 0xFFFFFFFF
            else if pt = PATTERN_ZEROS then 0
            else alt_word k"
  have m: "mismatches buffer (expected_payload pt count seed) count =
           length (filter (\<lambda>k. buffer ! k \<noteq> ?ex k) [0..<count])"
    by (rule mismatches_cong) (simp only: expected_payload_nth[OF assms])
  have v: "fst (verify_pattern pt buffer count seed) =
           min (int (length (filter (\<lambda>k. buffer ! k \<noteq> ?ex k) [0..<count]))) 11"
    using assms
    by (auto simp: verify_pattern_def verify_loop_count verify_random_count
          PATTERN_SEQ_def PATTERN_RANDOM_def PATTERN_ONES_def PATTERN_ZEROS_def PATTERN_ALT_def)
  show ?thesis
    unfolding m v by simp
qed

text \<open>
  C4. The specification has verification return the full number of mismatching units and
  cap the reporting only. The two verifiers differ. In litepcie\_dma\_test\_optimized\_v2.c every
  branch leaves its loop at \<^verbatim>\<open>if (errors > 10) break;\<close>, so for the five pattern types
  the returned count is the number of mismatching words capped at 11: the full count up
  to ten mismatches, and 11 from the eleventh on. In litepcie\_dma\_latency\_test.c the
  bound \<^verbatim>\<open>errors < 10\<close> guards the diagnostic output only, and the returned count is the
  number of mismatching words of the whole buffer (for a word count that an \<^verbatim>\<open>int\<close> can
  hold).
\<close>

theorem verify_count_capped_v2_full_lat:
  assumes "pt \<in> {PATTERN_SEQ, PATTERN_RANDOM, PATTERN_ONES, PATTERN_ZEROS, PATTERN_ALT}"
    and "count < 2 ^ 31"
    and "count \<le> length buffer" and "count \<le> length expected"
  shows "fst (verify_pattern pt buffer count seed) =
           int (min (mismatches buffer (expected_payload pt count seed) count) 11) \<and>
         lat_verify_pattern buffer expected count = int (mismatches buffer expected count)"
  using verify_pattern_v2_count[OF assms(1)]
  by (simp add: lat_verify_pattern_def lat_verify_loop_count mismatches_def)

theorem verify_count_capped_v2_full_lat_witness:
  "PATTERN_ZEROS \<in> {PATTERN_SEQ, PATTERN_RANDOM, PATTERN_ONES, PATTERN_ZEROS, PATTERN_ALT} \<and>
   (3::nat) < 2 ^ 31 \<and> (3::nat) \<le> length [0, 5, 6 :: 32 word] \<and>
   (3::nat) \<le> length [0, 5, 7 :: 32 word] \<and>
   mismatches [0, 5, 6] (expected_payload PATTERN_ZEROS 3 9) 3 = 2 \<and>
   fst (verify_pattern PATTERN_ZEROS [0, 5, 6] 3 9) = 2 \<and>
   mismatches [0, 5, 6] [0, 5, 7] 3 = 1 \<and>
   lat_verify_pattern [0, 5, 6] [0, 5, 7] 3 = 1"
proof -
  have h1: "PATTERN_ZEROS \<in> {PATTERN_SEQ, PATTERN_RANDOM, PATTERN_ONES, PATTERN_ZEROS, PATTERN_ALT}"
    by simp
  have h2: "(3::nat) < 2 ^ 31"
    by simp
  have m1: "mismatches [0, 5, 6] (expected_payload PATTERN_ZEROS 3 9) 3 = 2"
    by code_simp
  have m2: "mismatches [0, 5, 6] [0, 5, 7] 3 = 1"
    by code_simp
  show ?thesis
    using h1 h2 m1 m2
      verify_count_capped_v2_full_lat [of PATTERN_ZEROS 3 "[0, 5, 6]" "[0, 5, 7]" 9]
    by simp
qed

text \<open>
  The full count is not what the first verifier returns: of twelve words that should be
  zero and are not, it reports eleven.
\<close>

theorem verify_v2_stops_at_eleven:
  "fst (verify_pattern PATTERN_ZEROS (replicate 12 1) 12 0) = 11 \<and>
   mismatches (replicate 12 1) (expected_payload PATTERN_ZEROS 12 0) 12 = 12"
  by code_simp

section \<open>Properties of the statistics\<close>

lemma sum_list_bump:
  "b < length h \<Longrightarrow> sum_list (h[b := h ! b + 1]) = sum_list h + (1 :: 64 word)"
  by (induction h arbitrary: b) (auto simp: nth_Cons split: nat.splits)

lemma store_sample_keeps:
  "stats_count (store_sample cfg g l) = stats_count g"
  "stats_errors (store_sample cfg g l) = stats_errors g"
  "latency_histogram (store_sample cfg g l) = latency_histogram g"
  "histogram_overflow (store_sample cfg g l) = histogram_overflow g"
  by (simp_all add: store_sample_def Let_def split: option.splits)

lemma update_stats_step:
  assumes "config_histogram cfg \<noteq> 0" and "latency_histogram g = Some h"
    and "uint l div 1000 < 2 ^ 31"
  shows "update_stats cfg g l =
           Inr (store_sample cfg
                  (if uint l div 1000 < HISTOGRAM_BUCKETS
                   then g\<lparr>stats_count := stats_count g + 1,
                          latency_histogram :=
                            Some (h[nat (uint l div 1000) := h ! nat (uint l div 1000) + 1])\<rparr>
                   else g\<lparr>stats_count := stats_count g + 1,
                          histogram_overflow := histogram_overflow g + 1\<rparr>) l)"
  using assms by (simp add: update_stats_def update_histogram_def bucket_of_def Let_def)

lemma update_stats_invariant:
  assumes "config_histogram cfg \<noteq> 0" and "latency_histogram g = Some h"
    and "length h = nat HISTOGRAM_BUCKETS"
    and "uint l div 1000 < 2 ^ 31"
    and "sum_list h + histogram_overflow g = stats_count g"
  shows "\<exists>g1 h1. update_stats cfg g l = Inr g1 \<and> latency_histogram g1 = Some h1 \<and>
           length h1 = nat HISTOGRAM_BUCKETS \<and>
           sum_list h1 + histogram_overflow g1 = stats_count g1 \<and>
           stats_count g1 = stats_count g + 1"
proof (cases "uint l div 1000 < HISTOGRAM_BUCKETS")
  case True
  then have "nat (uint l div 1000) < length h"
    using assms(3) by (simp add: HISTOGRAM_BUCKETS_def)
  then show ?thesis
    using True assms(3,5)
    by (simp add: update_stats_step[OF assms(1,2,4)] store_sample_keeps sum_list_bump)
next
  case False
  then show ?thesis
    using assms(2,3,5)
    by (simp add: update_stats_step[OF assms(1,2,4)] store_sample_keeps)
qed

lemma update_stats_all_invariant:
  assumes "config_histogram cfg \<noteq> 0" and "latency_histogram g = Some h"
    and "length h = nat HISTOGRAM_BUCKETS"
    and "\<forall>l \<in> set ls. uint l div 1000 < 2 ^ 31"
    and "sum_list h + histogram_overflow g = stats_count g"
  shows "\<exists>g' h'. update_stats_all cfg g ls = Inr g' \<and> latency_histogram g' = Some h' \<and>
           length h' = nat HISTOGRAM_BUCKETS \<and>
           sum_list h' + histogram_overflow g' = stats_count g' \<and>
           stats_count g' = stats_count g + of_nat (length ls)"
  using assms
proof (induction ls arbitrary: g h)
  case Nil
  then show ?case by simp
next
  case (Cons l ls)
  from Cons.prems have "uint l div 1000 < 2 ^ 31"
    by simp
  from update_stats_invariant[OF Cons.prems(1,2,3) this Cons.prems(5)]
  obtain g1 h1 where g1: "update_stats cfg g l = Inr g1" "latency_histogram g1 = Some h1"
    "length h1 = nat HISTOGRAM_BUCKETS" "sum_list h1 + histogram_overflow g1 = stats_count g1"
    "stats_count g1 = stats_count g + 1"
    by blast
  from Cons.prems have "\<forall>l \<in> set ls. uint l div 1000 < 2 ^ 31"
    by simp
  from Cons.IH[OF Cons.prems(1) g1(2,3) this g1(4)]
  obtain g' h' where "update_stats_all cfg g1 ls = Inr g'" "latency_histogram g' = Some h'"
    "length h' = nat HISTOGRAM_BUCKETS" "sum_list h' + histogram_overflow g' = stats_count g'"
    "stats_count g' = stats_count g1 + of_nat (length ls)"
    by blast
  with g1 show ?case
    by simp
qed

lemma unat_bump:
  assumes "unat x < n" and "n < 2 ^ 64"
  shows "unat (x + 1 :: 64 word) = unat x + 1"
proof -
  have "unat x + unat (1 :: 64 word) < 2 ^ LENGTH(64)"
    using assms by simp
  then show ?thesis
    by (simp add: unat_add_lem[THEN iffD1])
qed

lemma sum_list_unat_bump:
  assumes "b < length h" and "sum_list (map unat h) < n" and "n < 2 ^ 64"
  shows "sum_list (map unat (h[b := h ! b + 1 :: 64 word])) = sum_list (map unat h) + 1"
proof -
  have "unat (h ! b) \<in> set (map unat h)"
    using assms(1) by simp
  then have le: "unat (h ! b) \<le> sum_list (map unat h)"
    by (simp add: member_le_sum_list)
  with assms(2) have "unat (h ! b) < n"
    by simp
  then have u: "unat (h ! b + 1) = unat (h ! b) + 1"
    using assms(3) by (rule unat_bump)
  have "sum_list (map unat (h[b := h ! b + 1])) = sum_list ((map unat h)[b := unat (h ! b + 1)])"
    by (simp add: map_update)
  also have "\<dots> = sum_list (map unat h) + unat (h ! b + 1) - map unat h ! b"
    using assms(1) by (simp add: sum_list_update)
  also have "\<dots> = sum_list (map unat h) + 1"
    using assms(1) u by simp
  finally show ?thesis .
qed

lemma update_stats_invariant_nat:
  assumes "config_histogram cfg \<noteq> 0" and "latency_histogram g = Some h"
    and "length h = nat HISTOGRAM_BUCKETS"
    and "uint l div 1000 < 2 ^ 31"
    and "sum_list (map unat h) + unat (histogram_overflow g) = unat (stats_count g)"
    and "unat (stats_count g) < n" and "n < 2 ^ 64"
  shows "\<exists>g1 h1. update_stats cfg g l = Inr g1 \<and> latency_histogram g1 = Some h1 \<and>
           length h1 = nat HISTOGRAM_BUCKETS \<and>
           sum_list (map unat h1) + unat (histogram_overflow g1) = unat (stats_count g1) \<and>
           unat (stats_count g1) = unat (stats_count g) + 1"
proof -
  have c: "unat (stats_count g + 1) = unat (stats_count g) + 1"
    using assms(6,7) by (rule unat_bump)
  show ?thesis
  proof (cases "uint l div 1000 < HISTOGRAM_BUCKETS")
    case True
    then have b: "nat (uint l div 1000) < length h"
      using assms(3) by (simp add: HISTOGRAM_BUCKETS_def)
    have "sum_list (map unat h) < n"
      using assms(5,6) by simp
    from sum_list_unat_bump[OF b this assms(7)] show ?thesis
      using True assms(3,5) c
      by (simp add: update_stats_step[OF assms(1,2,4)] store_sample_keeps)
  next
    case False
    have "unat (histogram_overflow g) < n"
      using assms(5,6) by simp
    then have "unat (histogram_overflow g + 1) = unat (histogram_overflow g) + 1"
      using assms(7) by (rule unat_bump)
    then show ?thesis
      using False assms(2,3,5) c
      by (simp add: update_stats_step[OF assms(1,2,4)] store_sample_keeps)
  qed
qed

lemma update_stats_all_invariant_nat:
  assumes "config_histogram cfg \<noteq> 0" and "latency_histogram g = Some h"
    and "length h = nat HISTOGRAM_BUCKETS"
    and "\<forall>l \<in> set ls. uint l div 1000 < 2 ^ 31"
    and "sum_list (map unat h) + unat (histogram_overflow g) = unat (stats_count g)"
    and "unat (stats_count g) + length ls < 2 ^ 64"
  shows "\<exists>g' h'. update_stats_all cfg g ls = Inr g' \<and> latency_histogram g' = Some h' \<and>
           length h' = nat HISTOGRAM_BUCKETS \<and>
           sum_list (map unat h') + unat (histogram_overflow g') = unat (stats_count g') \<and>
           unat (stats_count g') = unat (stats_count g) + length ls"
  using assms
proof (induction ls arbitrary: g h)
  case Nil
  then show ?case by simp
next
  case (Cons l ls)
  from Cons.prems have l: "uint l div 1000 < 2 ^ 31"
    by simp
  have lt: "unat (stats_count g) < unat (stats_count g) + length (l # ls)"
    by simp
  from update_stats_invariant_nat[OF Cons.prems(1,2,3) l Cons.prems(5) lt Cons.prems(6)]
  obtain g1 h1 where g1: "update_stats cfg g l = Inr g1" "latency_histogram g1 = Some h1"
    "length h1 = nat HISTOGRAM_BUCKETS"
    "sum_list (map unat h1) + unat (histogram_overflow g1) = unat (stats_count g1)"
    "unat (stats_count g1) = unat (stats_count g) + 1"
    by blast
  from Cons.prems have ls: "\<forall>l \<in> set ls. uint l div 1000 < 2 ^ 31"
    by simp
  have bound: "unat (stats_count g1) + length ls < 2 ^ 64"
    using Cons.prems(6) g1(5) by simp
  from Cons.IH[OF Cons.prems(1) g1(2,3) ls g1(4) bound]
  obtain g' h' where "update_stats_all cfg g1 ls = Inr g'" "latency_histogram g' = Some h'"
    "length h' = nat HISTOGRAM_BUCKETS"
    "sum_list (map unat h') + unat (histogram_overflow g') = unat (stats_count g')"
    "unat (stats_count g') = unat (stats_count g1) + length ls"
    by blast
  with g1 show ?case
    by simp
qed

text \<open>
  C5. With the histogram enabled and allocated (\<open>HISTOGRAM_BUCKETS\<close> counters), every
  \<^verbatim>\<open>update_stats\<close> call with a latency below \<open>2\<^sup>3\<^sup>1\<close> microseconds increments
  \<^verbatim>\<open>stats.count\<close> and exactly one other counter: the bucket
  \<open>\<lfloor>latency / 1000 ns\<rfloor>\<close> when that index is at most \<open>HISTOGRAM_BUCKETS - 1\<close>, the
  overflow counter otherwise. Hence, if the bucket counts and the overflow counter add
  up to \<^verbatim>\<open>stats.count\<close> before a run of such calls (as they do initially, all being
  zero), they add up to it afterwards, and the count has grown by the number of calls.
  The sums are sums of natural numbers; the run is short enough for the 64-bit count not
  to wrap. In the counters' own 64-bit arithmetic the equation is preserved by runs of
  any length (\<open>update_stats_all_invariant\<close>).
\<close>

theorem histogram_accounts_for_every_sample:
  assumes "config_histogram cfg \<noteq> 0" and "latency_histogram g = Some h"
    and "length h = nat HISTOGRAM_BUCKETS"
    and "uint l div 1000 < 2 ^ 31"
    and "\<forall>l \<in> set ls. uint l div 1000 < 2 ^ 31"
    and "sum_list (map unat h) + unat (histogram_overflow g) = unat (stats_count g)"
    and "unat (stats_count g) + length ls < 2 ^ 64"
  shows "(\<exists>g1. update_stats cfg g l = Inr g1 \<and> stats_count g1 = stats_count g + 1 \<and>
            (if uint l div 1000 \<le> HISTOGRAM_BUCKETS - 1
             then latency_histogram g1 =
                    Some (h[nat (uint l div 1000) := h ! nat (uint l div 1000) + 1]) \<and>
                  histogram_overflow g1 = histogram_overflow g
             else latency_histogram g1 = Some h \<and>
                  histogram_overflow g1 = histogram_overflow g + 1)) \<and>
         (\<exists>g' h'. update_stats_all cfg g ls = Inr g' \<and> latency_histogram g' = Some h' \<and>
            length h' = nat HISTOGRAM_BUCKETS \<and>
            sum_list (map unat h') + unat (histogram_overflow g') = unat (stats_count g') \<and>
            unat (stats_count g') = unat (stats_count g) + length ls)"
proof
  show "\<exists>g1. update_stats cfg g l = Inr g1 \<and> stats_count g1 = stats_count g + 1 \<and>
            (if uint l div 1000 \<le> HISTOGRAM_BUCKETS - 1
             then latency_histogram g1 =
                    Some (h[nat (uint l div 1000) := h ! nat (uint l div 1000) + 1]) \<and>
                  histogram_overflow g1 = histogram_overflow g
             else latency_histogram g1 = Some h \<and>
                  histogram_overflow g1 = histogram_overflow g + 1)"
    using assms(2)
    by (simp add: update_stats_step[OF assms(1,2,4)] store_sample_keeps HISTOGRAM_BUCKETS_def)
  show "\<exists>g' h'. update_stats_all cfg g ls = Inr g' \<and> latency_histogram g' = Some h' \<and>
            length h' = nat HISTOGRAM_BUCKETS \<and>
            sum_list (map unat h') + unat (histogram_overflow g') = unat (stats_count g') \<and>
            unat (stats_count g') = unat (stats_count g) + length ls"
    using assms(1,2,3,5,6,7) by (rule update_stats_all_invariant_nat)
qed

theorem histogram_accounts_for_every_sample_witness:
  "config_histogram default_config \<noteq> 0 \<and>
   latency_histogram (initial_stats default_config (replicate 10000 0)) =
     Some (replicate 1000 0) \<and>
   length (replicate 1000 (0 :: 64 word)) = nat HISTOGRAM_BUCKETS \<and>
   uint (1500 :: 64 word) div 1000 < 2 ^ 31 \<and>
   uint (2000000 :: 64 word) div 1000 < 2 ^ 31 \<and>
   uint (999999 :: 64 word) div 1000 < 2 ^ 31 \<and>
   sum_list (map unat (replicate 1000 (0 :: 64 word))) +
     unat (histogram_overflow (initial_stats default_config (replicate 10000 0))) =
     unat (stats_count (initial_stats default_config (replicate 10000 0))) \<and>
   unat (stats_count (initial_stats default_config (replicate 10000 0))) +
     length [1500, 2000000, 999999 :: 64 word] < 2 ^ 64 \<and>
   (\<exists>g1. update_stats default_config (initial_stats default_config (replicate 10000 0)) 1500 =
           Inr g1 \<and>
         stats_count g1 = 1 \<and> latency_histogram g1 = Some ((replicate 1000 0)[1 := 1]) \<and>
         histogram_overflow g1 = 0) \<and>
   (\<exists>g' h'. update_stats_all default_config (initial_stats default_config (replicate 10000 0))
              [1500, 2000000, 999999] = Inr g' \<and>
         latency_histogram g' = Some h' \<and>
         sum_list (map unat h') + unat (histogram_overflow g') = 3 \<and>
         unat (stats_count g') = 3)"
proof -
  let ?g = "initial_stats default_config (replicate 10000 0)"
  have h1: "config_histogram default_config \<noteq> 0"
    by (simp add: default_config_def)
  have h2: "latency_histogram ?g = Some (replicate 1000 0)"
    by (simp add: initial_stats_def default_config_def HISTOGRAM_BUCKETS_def)
  have h3: "length (replicate 1000 (0 :: 64 word)) = nat HISTOGRAM_BUCKETS"
    by (simp add: HISTOGRAM_BUCKETS_def)
  have h4: "uint (1500 :: 64 word) div 1000 < 2 ^ 31"
    by simp
  have h5: "\<forall>l \<in> set [1500, 2000000, 999999 :: 64 word]. uint l div 1000 < 2 ^ 31"
    by simp
  have c: "stats_count ?g = 0" "histogram_overflow ?g = 0"
    by (simp_all add: initial_stats_def)
  have h6: "sum_list (map unat (replicate 1000 (0 :: 64 word))) + unat (histogram_overflow ?g) =
            unat (stats_count ?g)"
    by (simp add: c sum_list_replicate)
  have h7: "unat (stats_count ?g) + length [1500, 2000000, 999999 :: 64 word] < 2 ^ 64"
    by (simp add: c)
  from histogram_accounts_for_every_sample [OF h1 h2 h3 h4 h5 h6 h7]
  have "(\<exists>g1. update_stats default_config ?g 1500 = Inr g1 \<and>
         stats_count g1 = 1 \<and> latency_histogram g1 = Some ((replicate 1000 0)[1 := 1]) \<and>
         histogram_overflow g1 = 0) \<and>
        (\<exists>g' h'. update_stats_all default_config ?g [1500, 2000000, 999999] = Inr g' \<and>
         latency_histogram g' = Some h' \<and>
         sum_list (map unat h') + unat (histogram_overflow g') = 3 \<and>
         unat (stats_count g') = 3)"
    by (simp add: c HISTOGRAM_BUCKETS_def numeral_3_eq_3 del: update_stats_all.simps) metis
  with h1 h2 h3 h4 h5 h6 h7 show ?thesis
    by (simp del: update_stats_all.simps)
qed

lemma store_sample_full:
  assumes "config_iterations cfg \<le> stats_sample_count g"
  shows "store_sample cfg g l = g"
  using assms by (simp add: store_sample_def split: option.splits)

text \<open>
  C6. The specification describes a ring that keeps accepting samples and overwrites the
  oldest one once it is full. The store of lines
  212--218 advances \<^verbatim>\<open>sample_index\<close> modulo the capacity and guards the increment of
  \<^verbatim>\<open>sample_count\<close> a second time, as a ring would, but the whole block runs only while
  \<^verbatim>\<open>sample_count < config.iterations\<close>: once the array is full nothing is written any
  more (\<open>store_sample_full\<close>). With a capacity of two (\<^verbatim>\<open>-n 2 -C -H\<close>) and three recorded latencies 1000,
  2000 and 3000 ns, the array ends as \<open>[1000, 2000]\<close>; the third sample is counted in
  \<^verbatim>\<open>stats.count\<close> but has not replaced the oldest one.
\<close>

theorem sample_store_stops_when_full:
  "update_stats_all (default_config\<lparr>config_iterations := 2, config_continuous := 1,
                                     config_histogram := 0\<rparr>)
     (initial_stats (default_config\<lparr>config_iterations := 2, config_continuous := 1,
                                     config_histogram := 0\<rparr>) [0, 0])
     [1000, 2000, 3000] =
   Inr \<lparr>stats_count = 3, stats_errors = 0,
        stats_recent_samples = Some [1000, 2000],
        stats_sample_index = 0, stats_sample_count = 2,
        latency_histogram = None, histogram_overflow = 0\<rparr>"
  by (simp add: update_stats_def update_histogram_def store_sample_def initial_stats_def
        default_config_def Let_def smod_int_alt_def)

lemma update_stats_counts:
  assumes "update_stats cfg g l = Inr g'"
  shows "stats_count g' = stats_count g + 1 \<and> stats_errors g' = stats_errors g"
  using assms
  by (auto simp: update_stats_def update_histogram_def store_sample_keeps Let_def
        split: sum.splits option.splits if_splits)

lemma corrupted_measurement_recorded:
  assumes "config_verify_data cfg \<noteq> 0"
    and "lat_verify_pattern (take (nat (config_transfer_size cfg) div 4) d)
           (lat_generate_pattern (config_pattern_type cfg) rnd write_buf
              (nat (config_transfer_size cfg) div 4) iteration)
           (nat (config_transfer_size cfg) div 4) = errs"
    and "0 < errs" and "end_time - start \<noteq> UINT64_MAX"
  shows "measure_and_record cfg g rnd write_buf iteration True (Some d) start end_time =
           update_stats cfg (g\<lparr>stats_errors := stats_errors g + of_int errs\<rparr>) (end_time - start)"
  using assms by (simp add: measure_and_record_def measure_dma_latency_def Let_def)

lemma timed_out_measurement_ignored:
  "measure_and_record cfg g rnd write_buf iteration False rd start end_time = Inr g"
  "measure_and_record cfg g rnd write_buf iteration wr_ok None start end_time = Inr g"
  by (simp_all add: measure_and_record_def measure_dma_latency_def Let_def)

text \<open>
  C8. The specification keeps an iteration whose verification fails out of the latency
  samples and counts errors, duplicates and timeouts in counters of their own. Neither
  program does all of that. In
  litepcie\_dma\_latency\_test.c a measurement whose verification finds \<open>errs > 0\<close>
  mismatching words adds \<open>errs\<close> to \<^verbatim>\<open>stats.errors\<close>, and its latency is then recorded by
  \<^verbatim>\<open>update_stats\<close> exactly like that of a clean measurement: \<^verbatim>\<open>stats.count\<close> grows by
  one. A measurement that times out waiting for a buffer changes nothing; there is no
  timeout counter. In litepcie\_latency\_test\_final.c a matched echo whose payload fails
  the integrity check is left out of \<open>successful\<close>, total, minimum and maximum, and no
  error counter exists; duplicates have their own counter (see C1).
\<close>

theorem errors_counted_latency_still_recorded:
  assumes "config_verify_data cfg \<noteq> 0"
    and "lat_verify_pattern (take (nat (config_transfer_size cfg) div 4) d)
           (lat_generate_pattern (config_pattern_type cfg) rnd write_buf
              (nat (config_transfer_size cfg) div 4) iteration)
           (nat (config_transfer_size cfg) div 4) = errs"
    and "0 < errs" and "end_time - start \<noteq> UINT64_MAX"
    and "pending_head st < MAX_PENDING" and "pending_tail st < MAX_PENDING"
    and "find (\<lambda>e. sequence e = s) (outstanding st) = Some e"
    and "s < iterations" and "processed st ! unat s = 0"
    and "data ! 0 = MARKER_VALUE" and "data ! 1 = s"
    and "\<not> verify_payload 2 (unat packet_size div 4) s data"
    and "nat (config_transfer_size cfg) div 4 \<le> length d"
    and "nat (config_transfer_size cfg) div 4 \<le> length write_buf"
    and "length (pending st) = MAX_PENDING"
    and "unat packet_size div 4 \<le> length data" and "2 \<le> length data"
  shows "measure_and_record cfg g rnd write_buf iteration True (Some d) start end_time =
           update_stats cfg (g\<lparr>stats_errors := stats_errors g + of_int errs\<rparr>) (end_time - start) \<and>
         (\<forall>g'. measure_and_record cfg g rnd write_buf iteration True (Some d) start end_time = Inr g'
            \<longrightarrow> stats_count g' = stats_count g + 1 \<and>
                stats_errors g' = stats_errors g + of_int errs) \<and>
         measure_and_record cfg g rnd write_buf iteration False rd start end_time = Inr g \<and>
         measure_and_record cfg g rnd write_buf iteration wr_ok None start end_time = Inr g \<and>
         receive_path iterations packet_size st (Some data) rx_time =
           Some (st\<lparr>processed := (processed st)[unat s := 1],
                    received := received st + 1, writer_sw_count := writer_sw_count st + 1\<rparr>)"
proof -
  note rec = corrupted_measurement_recorded[OF assms(1-4), of g]
  have "stats_count g' = stats_count g + 1 \<and> stats_errors g' = stats_errors g + of_int errs"
    if "measure_and_record cfg g rnd write_buf iteration True (Some d) start end_time = Inr g'" for g'
    using update_stats_counts[of cfg "g\<lparr>stats_errors := stats_errors g + of_int errs\<rparr>"
        "end_time - start" g'] that
    unfolding rec by simp
  then show ?thesis
    using rec timed_out_measurement_ignored[of cfg g rnd write_buf iteration]
      corrupt_echo_not_recorded[OF assms(5-12)]
    by blast
qed

theorem errors_counted_latency_still_recorded_witness:
  "config_verify_data (default_config\<lparr>config_transfer_size := 8,
      config_pattern_type := PATTERN_FIXED\<rparr>) \<noteq> 0 \<and>
   lat_verify_pattern (take 2 [0xDEADBEEF, 0x0BADF00D])
     (lat_generate_pattern PATTERN_FIXED (\<lambda>_. 0) [0, 0] 2 0) 2 = 1 \<and>
   (6000 :: 64 word) - 1000 \<noteq> UINT64_MAX \<and>
   find (\<lambda>e. sequence e = 0) (outstanding (send_path 5 (initial_state 5) True 1000)) =
     Some \<lparr>timestamp = 1000, sequence = 0, marker = MARKER_VALUE\<rparr> \<and>
   \<not> verify_payload 2 (unat (16 :: 32 word) div 4) 0 [MARKER_VALUE, 0, 2, 99] \<and>
   length (pending (send_path 5 (initial_state 5) True 1000)) = MAX_PENDING \<and>
   unat (16 :: 32 word) div 4 \<le> length [MARKER_VALUE, 0, 2, 99] \<and>
   measure_and_record
     (default_config\<lparr>config_transfer_size := 8, config_pattern_type := PATTERN_FIXED\<rparr>)
     (initial_stats default_config [0, 0, 0, 0]) (\<lambda>_. 0) [0, 0] 0 True
     (Some [0xDEADBEEF, 0x0BADF00D]) 1000 6000 =
   update_stats
     (default_config\<lparr>config_transfer_size := 8, config_pattern_type := PATTERN_FIXED\<rparr>)
     ((initial_stats default_config [0, 0, 0, 0])\<lparr>stats_errors := 1\<rparr>) 5000 \<and>
   measure_and_record
     (default_config\<lparr>config_transfer_size := 8, config_pattern_type := PATTERN_FIXED\<rparr>)
     (initial_stats default_config [0, 0, 0, 0]) (\<lambda>_. 0) [0, 0] 0 True None 1000 6000 =
   Inr (initial_stats default_config [0, 0, 0, 0]) \<and>
   receive_path 5 16 (send_path 5 (initial_state 5) True 1000)
     (Some [MARKER_VALUE, 0, 2, 99]) 1250 =
   Some ((send_path 5 (initial_state 5) True 1000)
           \<lparr>processed := [1, 0, 0, 0, 0], received := 1, writer_sw_count := 1\<rparr>)"
proof -
  let ?cfg = "default_config\<lparr>config_transfer_size := 8, config_pattern_type := PATTERN_FIXED\<rparr>"
  let ?st = "send_path 5 (initial_state 5) True 1000"
  let ?e = "\<lparr>timestamp = 1000, sequence = 0, marker = MARKER_VALUE\<rparr>"
  have st: "?st = (initial_state 5)
      \<lparr>pending := (pending (initial_state 5))[0 := ?e], pending_tail := 1,
       reader_sw_count := 1, tx_sequence := 1, sent := 1\<rparr>"
    by (simp add: send_path_def store_pending_def initial_state_def MAX_PENDING_def Let_def)
  have h1: "config_verify_data ?cfg \<noteq> 0"
    by (simp add: default_config_def)
  have v: "lat_verify_pattern (take 2 [0xDEADBEEF, 0x0BADF00D])
     (lat_generate_pattern PATTERN_FIXED (\<lambda>_. 0) [0, 0] 2 0) 2 = 1"
    by (simp add: lat_generate_pattern_def PATTERN_FIXED_def PATTERN_SEQ_def PATTERN_RANDOM_def
          lat_fill.simps lat_verify_pattern_def lat_verify_loop.simps)
  have h2: "lat_verify_pattern (take (nat (config_transfer_size ?cfg) div 4) [0xDEADBEEF, 0x0BADF00D])
           (lat_generate_pattern (config_pattern_type ?cfg) (\<lambda>_. 0) [0, 0]
              (nat (config_transfer_size ?cfg) div 4) 0)
           (nat (config_transfer_size ?cfg) div 4) = 1"
    using v by (simp add: default_config_def)
  have h3: "(0::int) < 1"
    by simp
  have h4: "(6000 :: 64 word) - 1000 \<noteq> UINT64_MAX"
    by (simp add: UINT64_MAX_def)
  have h5: "pending_head ?st < MAX_PENDING"
    by (simp add: st) (simp add: initial_state_def MAX_PENDING_def)
  have h6: "pending_tail ?st < MAX_PENDING"
    by (simp add: st) (simp add: initial_state_def MAX_PENDING_def)
  have h7: "find (\<lambda>e. sequence e = 0) (outstanding ?st) = Some ?e"
    by (simp add: st outstanding_def) (simp add: initial_state_def MAX_PENDING_def)
  have h8: "(0 :: 32 word) < 5"
    by simp
  have h9: "processed ?st ! unat (0 :: 32 word) = 0"
    by (simp add: st) (simp add: initial_state_def)
  have h10: "[MARKER_VALUE, 0, 2, 99] ! 0 = MARKER_VALUE"
    "[MARKER_VALUE, 0, 2, 99] ! 1 = (0 :: 32 word)"
    by simp_all
  have h11: "\<not> verify_payload 2 (unat (16 :: 32 word) div 4) 0 [MARKER_VALUE, 0, 2, 99]"
    by (simp add: verify_payload.simps)
  have p: "(processed ?st)[unat (0 :: 32 word) := 1] = [1, 0, 0, 0, 0]"
    by code_simp
  have r: "received ?st = 0" "writer_sw_count ?st = 0"
    by (simp_all add: st) (simp_all add: initial_state_def)
  have s0: "stats_errors (initial_stats default_config [0, 0, 0, 0]) = 0"
    by (simp add: initial_stats_def)
  have h12: "nat (config_transfer_size ?cfg) div 4 \<le> length [0xDEADBEEF, 0x0BADF00D :: 32 word]"
    "nat (config_transfer_size ?cfg) div 4 \<le> length [0, 0 :: 32 word]"
    by (simp_all add: default_config_def)
  have h13: "length (pending ?st) = MAX_PENDING"
    by (simp add: st) (simp add: initial_state_def)
  have h14: "unat (16 :: 32 word) div 4 \<le> length [MARKER_VALUE, 0, 2, 99]"
    "2 \<le> length [MARKER_VALUE, 0, 2, 99]"
    by simp_all
  from errors_counted_latency_still_recorded
         [OF h1 h2 h3 h4 h5 h6 h7 h8 h9 h10 h11 h12 h13 h14,
          of "initial_stats default_config [0, 0, 0, 0]" None True 1250]
  show ?thesis
    using h1 v h4 h7 h11 h13 h14(1) by (simp only: p r s0) simp
qed

text \<open>
  A failed verification does reach the latency samples of the DMA latency test: one
  measurement with the fixed
  pattern whose second word comes back corrupted counts one error and is recorded as a
  latency sample of 5000 ns all the same (count, histogram bucket 5 and sample store).
\<close>

theorem failed_verification_still_recorded:
  "measure_and_record
     (default_config\<lparr>config_transfer_size := 8, config_iterations := 4,
                     config_pattern_type := PATTERN_FIXED\<rparr>)
     (initial_stats default_config [0, 0, 0, 0])
     (\<lambda>_. 0) [0, 0] 0 True (Some [0xDEADBEEF, 0x0BADF00D]) 1000 6000 =
   Inr \<lparr>stats_count = 1, stats_errors = 1,
        stats_recent_samples = Some [5000, 0, 0, 0],
        stats_sample_index = 1, stats_sample_count = 1,
        latency_histogram = Some ((replicate 1000 0)[5 := 1]), histogram_overflow = 0\<rparr>"
  by (simp add: measure_and_record_def measure_dma_latency_def Let_def default_config_def
        initial_stats_def lat_generate_pattern_def PATTERN_FIXED_def PATTERN_SEQ_def
        PATTERN_RANDOM_def lat_fill.simps lat_verify_pattern_def lat_verify_loop.simps
        UINT64_MAX_def update_stats_def update_histogram_def bucket_of_def store_sample_def
        HISTOGRAM_BUCKETS_def smod_int_alt_def)

section \<open>Percentiles\<close>

lemma sort_inner_length [simp]: "length (sort_inner i j n arr) = length arr"
  by (induction i j n arr rule: sort_inner.induct) (subst sort_inner.simps, simp)

lemma swap_set_drop:
  assumes "i < j" and "j < length arr"
  shows "set (drop i (arr[i := arr ! j, j := arr ! i])) = set (drop i arr)"
proof -
  let ?ys = "drop i arr"
  have "drop i (arr[i := arr ! j, j := arr ! i]) = ?ys[0 := ?ys ! (j - i), j - i := ?ys ! 0]"
    using assms by (simp add: drop_update_swap)
  moreover have "set (?ys[0 := ?ys ! (j - i), j - i := ?ys ! 0]) = set ?ys"
    using assms by (intro set_swap) simp_all
  ultimately show ?thesis by simp
qed

lemma sort_inner_take:
  "i < j \<Longrightarrow> take i (sort_inner i j n arr) = take i arr"
proof (induction i j n arr rule: sort_inner.induct)
  case (1 i j n arr)
  show ?case
  proof (cases "j < n")
    case True
    with 1 show ?thesis
      by (subst sort_inner.simps) simp
  next
    case False
    then show ?thesis
      by (subst sort_inner.simps) simp
  qed
qed

lemma sort_inner_set_drop:
  "i < j \<Longrightarrow> n \<le> length arr \<Longrightarrow> set (drop i (sort_inner i j n arr)) = set (drop i arr)"
proof (induction i j n arr rule: sort_inner.induct)
  case (1 i j n arr)
  show ?case
  proof (cases "j < n")
    case True
    with 1 show ?thesis
      by (subst sort_inner.simps) (simp add: swap_set_drop)
  next
    case False
    then show ?thesis
      by (subst sort_inner.simps) simp
  qed
qed

lemma sort_inner_min:
  "i < j \<Longrightarrow> n \<le> length arr \<Longrightarrow> (\<And>k. i < k \<Longrightarrow> k < j \<Longrightarrow> arr ! i \<le> arr ! k) \<Longrightarrow>
     i < k \<Longrightarrow> k < n \<Longrightarrow> sort_inner i j n arr ! i \<le> sort_inner i j n arr ! k"
proof (induction i j n arr arbitrary: k rule: sort_inner.induct)
  case (1 i j n arr)
  show ?case
  proof (cases "j < n")
    case True
    let ?arr = "if arr ! i > arr ! j then arr[i := arr ! j, j := arr ! i] else arr"
    have inv: "?arr ! i \<le> ?arr ! m" if "i < m" "m < j + 1" for m
    proof (cases "m = j")
      case True
      with \<open>j < n\<close> "1.prems"(1,2) show ?thesis by auto
    next
      case False
      with that have "m < j" by simp
      with "1.prems"(3)[OF that(1) this] \<open>j < n\<close> "1.prems"(1,2) that show ?thesis
        by auto
    qed
    have "sort_inner i (j + 1) n ?arr ! i \<le> sort_inner i (j + 1) n ?arr ! k"
      using "1.prems"(1,2,4,5) True inv
      by (intro "1.IH") simp_all
    with True show ?thesis
      by (subst (1 2) sort_inner.simps) simp
  next
    case False
    with "1.prems" show ?thesis
      by (subst (1 2) sort_inner.simps) simp
  qed
qed


lemma sort_inner_set:
  assumes "i < j" and "n \<le> length arr"
  shows "set (sort_inner i j n arr) = set arr"
proof -
  have "set (sort_inner i j n arr) =
          set (take i (sort_inner i j n arr)) \<union> set (drop i (sort_inner i j n arr))"
    by (simp only: set_append[symmetric] append_take_drop_id)
  also have "\<dots> = set (take i arr) \<union> set (drop i arr)"
    using assms by (simp add: sort_inner_take sort_inner_set_drop)
  also have "\<dots> = set arr"
    by (simp only: set_append[symmetric] append_take_drop_id)
  finally show ?thesis .
qed

lemma sort_outer_length [simp]: "length (sort_outer i n arr) = length arr"
  by (induction i n arr rule: sort_outer.induct) (subst sort_outer.simps, simp)

lemma sort_outer_set:
  "n \<le> length arr \<Longrightarrow> set (sort_outer i n arr) = set arr"
proof (induction i n arr rule: sort_outer.induct)
  case (1 i n arr)
  then show ?case
    by (subst sort_outer.simps) (simp add: sort_inner_set)
qed

lemma sort_outer_sorted:
  "n = length arr \<Longrightarrow> i \<le> n \<Longrightarrow> sorted (take i arr) \<Longrightarrow>
     (\<And>a b. a \<in> set (take i arr) \<Longrightarrow> b \<in> set (drop i arr) \<Longrightarrow> a \<le> b) \<Longrightarrow>
     sorted (sort_outer i n arr)"
proof (induction i n arr rule: sort_outer.induct)
  case (1 i n arr)
  show ?case
  proof (cases "i + 1 < n")
    case True
    let ?arr = "sort_inner i (i + 1) n arr"
    have i: "i < length ?arr" and n: "n \<le> length arr"
      using True "1.prems"(1) by simp_all
    have tk: "take i ?arr = take i arr"
      by (simp add: sort_inner_take)
    have dr: "set (drop i ?arr) = set (drop i arr)"
      using n by (simp add: sort_inner_set_drop)
    have mem: "?arr ! i \<in> set (drop i ?arr)"
      by (subst Cons_nth_drop_Suc[OF i, symmetric]) simp
    have tk1: "take (i + 1) ?arr = take i arr @ [?arr ! i]"
      using i tk by (simp add: take_Suc_conv_app_nth)
    have s: "sorted (take (i + 1) ?arr)"
      unfolding tk1 using "1.prems"(3,4) mem dr by (auto simp: sorted_append)
    have le: "a \<le> b" if "a \<in> set (take (i + 1) ?arr)" "b \<in> set (drop (i + 1) ?arr)" for a b
    proof -
      from that(2) obtain k where k: "b = ?arr ! k" "i + 1 \<le> k" "k < n"
        using "1.prems"(1) by (auto simp: in_set_conv_nth)
      have "set (drop (i + 1) ?arr) \<subseteq> set (drop i ?arr)"
        by (rule set_drop_subset_set_drop) simp
      with that(2) dr have bd: "b \<in> set (drop i arr)"
        by blast
      from that(1) consider "a \<in> set (take i arr)" | "a = ?arr ! i"
        unfolding tk1 by auto
      then show ?thesis
      proof cases
        case 1
        with bd "1.prems"(4) show ?thesis by blast
      next
        case 2
        have "?arr ! i \<le> ?arr ! k"
          using n k by (intro sort_inner_min) simp_all
        with 2 k show ?thesis by simp
      qed
    qed
    have "sorted (sort_outer (i + 1) n ?arr)"
      using True "1.prems"(1) s le by (intro "1.IH") simp_all
    with True show ?thesis
      by (subst sort_outer.simps) simp
  next
    case False
    have "sorted arr"
    proof (cases "i = n")
      case True
      with "1.prems"(1,3) show ?thesis by simp
    next
      case ne: False
      with False "1.prems"(2) have n: "n = i + 1" by simp
      then have i: "i < length arr"
        using "1.prems"(1) by simp
      have split: "take i arr @ [arr ! i] = arr"
        using take_Suc_conv_app_nth[OF i] n "1.prems"(1) by simp
      have mem: "arr ! i \<in> set (drop i arr)"
        by (subst Cons_nth_drop_Suc[OF i, symmetric]) simp
      have "sorted (take i arr @ [arr ! i])"
        using "1.prems"(3,4) mem by (auto simp: sorted_append)
      then show ?thesis
        by (simp only: split)
    qed
    with False show ?thesis
      by (subst sort_outer.simps) simp
  qed
qed

lemma sort_outer_sorts:
  "sorted (sort_outer 0 (length arr) arr)"
  by (rule sort_outer_sorted) simp_all

lemma calculate_percentile_index:
  assumes "stats_recent_samples g = Some samples"
    and "0 < stats_sample_count g"
  shows "calculate_percentile g True p =
           Some (sort_outer 0 (nat (stats_sample_count g))
                   (take (nat (stats_sample_count g)) samples) !
                 min (p * nat (stats_sample_count g) div 100) (nat (stats_sample_count g) - 1))"
proof -
  let ?c = "stats_sample_count g"
  have idx: "int p * ?c div 100 = int (p * nat ?c div 100)"
    using assms(2) by (simp add: zdiv_int)
  have "nat (if int p * ?c div 100 \<ge> ?c then ?c - 1 else int p * ?c div 100) =
          min (p * nat ?c div 100) (nat ?c - 1)"
    unfolding idx using assms(2) by (auto simp: min_def nat_diff_distrib)
  then show ?thesis
    using assms by (simp add: calculate_percentile_def Let_def)
qed

lemma calculate_percentile_mono:
  assumes "stats_recent_samples g = Some samples"
    and "0 < stats_sample_count g"
    and "nat (stats_sample_count g) \<le> length samples"
    and "p \<le> q"
  shows "\<exists>x y. calculate_percentile g True p = Some x \<and>
               calculate_percentile g True q = Some y \<and> x \<le> y"
proof -
  let ?n = "nat (stats_sample_count g)"
  let ?arr = "sort_outer 0 ?n (take ?n samples)"
  have len: "length (take ?n samples) = ?n"
    using assms(3) by simp
  have "sorted (sort_outer 0 (length (take ?n samples)) (take ?n samples))"
    by (rule sort_outer_sorts)
  then have srt: "sorted ?arr"
    by (simp only: len)
  have n: "0 < ?n"
    using assms(2) by simp
  have le: "min (p * ?n div 100) (?n - 1) \<le> min (q * ?n div 100) (?n - 1)"
    using assms(4) by (simp add: div_le_mono min.coboundedI1 min.coboundedI2)
  have lt: "min (q * ?n div 100) (?n - 1) < length ?arr"
    using n len by simp
  have "?arr ! min (p * ?n div 100) (?n - 1) \<le> ?arr ! min (q * ?n div 100) (?n - 1)"
    using srt le lt by (rule sorted_nth_mono)
  then show ?thesis
    by (simp add: calculate_percentile_index[OF assms(1,2)])
qed


lemma calculate_stats_mono:
  assumes "0 < count" and "count \<le> length latencies" and "i \<le> j" and "j < count"
  shows "(sort (take count latencies) @ drop count latencies) ! i \<le>
         (sort (take count latencies) @ drop count latencies) ! j"
proof -
  have len: "length (sort (take count latencies)) = count"
    using assms(2) by simp
  have "sort (take count latencies) ! i \<le> sort (take count latencies) ! j"
    using assms(3,4) len by (intro sorted_nth_mono) simp_all
  then show ?thesis
    using assms(3,4) len by (simp add: nth_append)
qed

text \<open>
  C9. For a non-empty sample set, \<^verbatim>\<open>calculate_percentile\<close> sorts a copy of the stored
  samples (\<open>sort_outer_sorts\<close>; the sorted array has the elements of the copy,
  \<open>sort_outer_set\<close>) and selects the entry at \<open>\<lfloor>p \<cdot> count / 100\<rfloor>\<close>, clamped to
  \<open>count - 1\<close> (\<open>calculate_percentile_index\<close>); so the 50th, 90th, 95th and 99th
  percentiles of unchanged samples are in ascending order, as are any two percentiles
  \<open>p \<le> q\<close>. The same order holds for the percentiles that \<^verbatim>\<open>calculate_stats\<close> of the
  register test reads from its sorted array.
\<close>

theorem percentiles_are_monotonic:
  assumes "stats_recent_samples g = Some samples"
    and "0 < stats_sample_count g"
    and "nat (stats_sample_count g) \<le> length samples"
    and "0 < count" and "count \<le> length latencies" and "count * 999 < 2 ^ 31"
  shows "(\<exists>a b c d. calculate_percentile g True 50 = Some a \<and>
            calculate_percentile g True 90 = Some b \<and>
            calculate_percentile g True 95 = Some c \<and>
            calculate_percentile g True 99 = Some d \<and> a \<le> b \<and> b \<le> c \<and> c \<le> d) \<and>
         (\<forall>p q. p \<le> q \<longrightarrow>
            (\<exists>x y. calculate_percentile g True p = Some x \<and>
                   calculate_percentile g True q = Some y \<and> x \<le> y)) \<and>
         p50 (calculate_stats latencies count) \<le> p90 (calculate_stats latencies count) \<and>
         p90 (calculate_stats latencies count) \<le> p95 (calculate_stats latencies count) \<and>
         p95 (calculate_stats latencies count) \<le> p99 (calculate_stats latencies count)"
proof -
  note mono = calculate_percentile_mono[OF assms(1,2,3)]
  from mono[of 50 90] mono[of 90 95] mono[of 95 99]
  have chain: "\<exists>a b c d. calculate_percentile g True 50 = Some a \<and>
            calculate_percentile g True 90 = Some b \<and>
            calculate_percentile g True 95 = Some c \<and>
            calculate_percentile g True 99 = Some d \<and> a \<le> b \<and> b \<le> c \<and> c \<le> d"
    by (simp del: calculate_percentile_def) (metis option.inject)
  have all: "\<forall>p q. p \<le> q \<longrightarrow>
            (\<exists>x y. calculate_percentile g True p = Some x \<and>
                   calculate_percentile g True q = Some y \<and> x \<le> y)"
    using mono by blast
  have i: "count * 50 div 100 \<le> count * 90 div 100" "count * 90 div 100 \<le> count * 95 div 100"
    "count * 95 div 100 \<le> count * 99 div 100" "count * 99 div 100 < count"
    using assms(4) by simp_all
  have stats: "p50 (calculate_stats latencies count) \<le> p90 (calculate_stats latencies count)"
    "p90 (calculate_stats latencies count) \<le> p95 (calculate_stats latencies count)"
    "p95 (calculate_stats latencies count) \<le> p99 (calculate_stats latencies count)"
    using i assms(4,5) by (simp_all add: calculate_stats_def Let_def calculate_stats_mono)
  from chain all stats show ?thesis
    by blast
qed

theorem percentiles_are_monotonic_witness:
  "stats_recent_samples
     \<lparr>stats_count = 4, stats_errors = 0, stats_recent_samples = Some [5000, 1000, 3000, 2000, 7],
      stats_sample_index = 4, stats_sample_count = 4, latency_histogram = None,
      histogram_overflow = 0\<rparr> = Some [5000, 1000, 3000, 2000, 7] \<and>
   0 < stats_sample_count
     \<lparr>stats_count = 4, stats_errors = 0, stats_recent_samples = Some [5000, 1000, 3000, 2000, 7],
      stats_sample_index = 4, stats_sample_count = 4, latency_histogram = None,
      histogram_overflow = 0\<rparr> \<and>
   (4::nat) \<le> length [5000, 1000, 3000, 2000, 7 :: 64 word] \<and>
   (4::nat) * 999 < 2 ^ 31 \<and>
   calculate_percentile
     \<lparr>stats_count = 4, stats_errors = 0, stats_recent_samples = Some [5000, 1000, 3000, 2000, 7],
      stats_sample_index = 4, stats_sample_count = 4, latency_histogram = None,
      histogram_overflow = 0\<rparr> True 50 = Some 3000 \<and>
   calculate_percentile
     \<lparr>stats_count = 4, stats_errors = 0, stats_recent_samples = Some [5000, 1000, 3000, 2000, 7],
      stats_sample_index = 4, stats_sample_count = 4, latency_histogram = None,
      histogram_overflow = 0\<rparr> True 99 = Some 5000 \<and>
   p50 (calculate_stats [5000, 1000, 3000, 2000, 7] 4) = 3000 \<and>
   p99 (calculate_stats [5000, 1000, 3000, 2000, 7] 4) = 5000 \<and>
   p50 (calculate_stats [5000, 1000, 3000, 2000, 7] 4) \<le>
     p90 (calculate_stats [5000, 1000, 3000, 2000, 7] 4)"
proof -
  let ?g = "\<lparr>stats_count = 4, stats_errors = 0,
      stats_recent_samples = Some [5000, 1000, 3000, 2000, 7 :: 64 word],
      stats_sample_index = 4, stats_sample_count = 4, latency_histogram = None,
      histogram_overflow = 0\<rparr>"
  have h1: "stats_recent_samples ?g = Some [5000, 1000, 3000, 2000, 7]"
    by simp
  have h2: "0 < stats_sample_count ?g"
    by simp
  have h3: "nat (stats_sample_count ?g) \<le> length [5000, 1000, 3000, 2000, 7 :: 64 word]"
    by simp
  have h4: "0 < (4::nat)" and h5: "(4::nat) \<le> length [5000, 1000, 3000, 2000, 7 :: 64 word]"
    and h6: "(4::nat) * 999 < 2 ^ 31"
    by simp_all
  have v: "calculate_percentile ?g True 50 = Some 3000" "calculate_percentile ?g True 99 = Some 5000"
    by (simp_all add: calculate_percentile_def Let_def sort_outer.simps sort_inner.simps)
  have w: "p50 (calculate_stats [5000, 1000, 3000, 2000, 7] 4) = 3000"
    "p99 (calculate_stats [5000, 1000, 3000, 2000, 7] 4) = 5000"
    by (simp_all add: calculate_stats_def Let_def)
  show ?thesis
    using h1 h2 h5 h6 v w percentiles_are_monotonic [OF h1 h2 h3 h4 h5 h6]
    by simp
qed

end
